theory Spec2Isabelle
  imports Complex_Main
begin

section \<open>JavaScript strings, errors and the world the automation runs in\<close>

text \<open>
  A JavaScript string is a sequence of UTF-16 code units. The source mixes ASCII and CJK
  literals, so a string is modelled as the list of its code units; \<open>js\<close> embeds an
  ASCII literal.
\<close>

type_synonym jsstring = "nat list"

definition js :: "string \<Rightarrow> jsstring" where
  "js s = map of_char s"

text \<open>\<open>String.prototype.startsWith\<close> and \<open>String.prototype.includes\<close>.\<close>

fun js_startsWith :: "jsstring \<Rightarrow> jsstring \<Rightarrow> bool" where
  "js_startsWith s [] = True"
| "js_startsWith [] (c # t) = False"
| "js_startsWith (d # s) (c # t) = (d = c \<and> js_startsWith s t)"

fun js_includes :: "jsstring \<Rightarrow> jsstring \<Rightarrow> bool" where
  "js_includes [] t = (t = [])"
| "js_includes (d # s) t = (js_startsWith (d # s) t \<or> js_includes s t)"

text \<open>
  The code units that \<open>String.prototype.trim\<close> strips and that \<open>\s\<close> matches in a
  regular expression (ECMAScript WhiteSpace and LineTerminator), as inclusive ranges.
\<close>

fun in_ranges :: "nat \<Rightarrow> (nat \<times> nat) list \<Rightarrow> bool" where
  "in_ranges c [] = False"
| "in_ranges c ((lo, hi) # rs) = ((lo \<le> c \<and> c \<le> hi) \<or> in_ranges c rs)"

definition whiteSpace :: "(nat \<times> nat) list" where
  "whiteSpace =
     [(9, 13), (32, 32), (160, 160), (5760, 5760), (8192, 8202), (8232, 8233), (8239, 8239),
      (8287, 8287), (12288, 12288), (65279, 65279)]"

definition isWhiteSpace :: "nat \<Rightarrow> bool" where
  "isWhiteSpace c = in_ranges c whiteSpace"

definition js_trim :: "jsstring \<Rightarrow> jsstring" where
  "js_trim s = rev (dropWhile isWhiteSpace (rev (dropWhile isWhiteSpace s)))"

text \<open>
  A thrown value. Everything the browser driver and the stage methods throw is an
  \<open>Error\<close> object carrying a message.
\<close>

datatype error = Error (message: jsstring)

text \<open>
  The events of a run that an observer can see: calls of the logging collaborator (one
  constructor per call site that is modelled, carrying the interpolated values), and the
  invocations of the stage methods of the registration flow with their arguments.
\<close>

datatype stage =
    ClickLogin | ClickSignUp | EnterEmail jsstring | EnterPassword jsstring
  | EnterVerificationCode jsstring | EnterNameAndBirthday | EnterUsername

datatype event =
    RetryWarn jsstring nat nat jsstring
  | RetryExhausted jsstring nat
  | SafeEvaluateRetry nat nat
  | Invoked stage
  | Screenshot jsstring
  | SignInIssueDetected
  | FinalStateSaved
  | FinalStateFailed
  | CurrentPage jsstring
  | PageShowsError jsstring
  | StillOnAuthPage jsstring
  | RegisterSucceeded
  | StatusUncertain jsstring
  | RegisterError jsstring
  | InputsFound nat
  | WaitTimedOut
  | EmailObtained jsstring
  | EmailNotFound
  | EmailFailed jsstring

text \<open>
  The world threaded through every asynchronous method: the clock read by \<open>Date.now()\<close>
  (milliseconds), the events emitted so far, and the state of the browser page, whose type
  is left open. \<open>sleep\<close> advances the clock; the browser's own calls are taken to
  be instantaneous.
\<close>

record 'p world =
  now :: nat
  events :: "event list"
  page :: 'p

type_synonym ('p, 'a) action = "'p world \<Rightarrow> (error + 'a) \<times> 'p world"

definition sleep :: "nat \<Rightarrow> 'p world \<Rightarrow> 'p world" where
  "sleep ms w = w\<lparr>now := now w + ms\<rparr>"

definition logger :: "event \<Rightarrow> 'p world \<Rightarrow> 'p world" where
  "logger e w = w\<lparr>events := events w @ [e]\<rparr>"

text \<open>
  A call of the browser driver on the page: it reads and changes only the page, and
  either rejects with an error or resolves with a value.
\<close>

type_synonym ('p, 'a) browser_call = "'p \<Rightarrow> (error + 'a) \<times> 'p"

definition driver :: "('p, 'a) browser_call \<Rightarrow> ('p, 'a) action" where
  "driver call w = (case call (page w) of (r, p) \<Rightarrow> (r, w\<lparr>page := p\<rparr>))"


section \<open>The resilient interaction layer\<close>

subsection \<open>\<open>withRetry\<close>\<close>

text \<open>
  \<open>for (let i = 0; i < retries; i++) { try { return await fn(); } catch (error) { ... } }\<close>
  followed by \<open>throw lastError\<close>. \<open>lastError\<close> is \<open>undefined\<close> until the
  first failure, so the thrown value is an \<open>error option\<close>: \<open>None\<close> is
  \<open>undefined\<close>, thrown when the loop body never ran. Inside the loop
  \<open>i < retries - 1\<close> is written \<open>i + 1 < retries\<close> (the same on integers, and free of
  truncated subtraction).
\<close>

function withRetry_loop ::
  "('p, 'a) action \<Rightarrow> jsstring \<Rightarrow> nat \<Rightarrow> nat \<Rightarrow> nat \<Rightarrow> error option \<Rightarrow> 'p world
     \<Rightarrow> (error option + 'a) \<times> 'p world" where
  "withRetry_loop fn stepName retries delay i lastError w =
     (if i < retries then
        (case fn w of
           (Inr v, w1) \<Rightarrow> (Inr v, w1)
         | (Inl e, w1) \<Rightarrow>
             withRetry_loop fn stepName retries delay (i + 1) (Some e)
               (if i + 1 < retries
                then sleep delay (logger (RetryWarn stepName (i + 1) retries (message e)) w1)
                else w1))
      else (Inl lastError, logger (RetryExhausted stepName retries) w))"
  by pat_completeness auto
termination
  by (relation "measure (\<lambda>(fn, stepName, retries, delay, i, lastError, w). retries - i)") auto

definition withRetry ::
  "('p, 'a) action \<Rightarrow> jsstring \<Rightarrow> nat \<Rightarrow> nat \<Rightarrow> 'p world \<Rightarrow> (error option + 'a) \<times> 'p world" where
  "withRetry fn stepName retries delay w = withRetry_loop fn stepName retries delay 0 None w"


subsection \<open>\<open>safeEvaluate\<close>\<close>

definition isNavigationError :: "error \<Rightarrow> bool" where
  "isNavigationError e \<longleftrightarrow>
     js_includes (message e) (js ''Execution context was destroyed'')
     \<or> js_includes (message e) (js ''navigation'')
     \<or> js_includes (message e) (js ''Target closed'')"

text \<open>
  \<open>evaluate\<close> stands for \<open>this.page.evaluate(fn)\<close>. Each branch of the result says
  how the method ended: \<open>Inl e\<close> is \<open>throw e\<close>, \<open>Inr v\<close> a returned value.
\<close>

function safeEvaluate_loop ::
  "('p, 'a) browser_call \<Rightarrow> 'a \<Rightarrow> nat \<Rightarrow> nat \<Rightarrow> ('p, 'a) action" where
  "safeEvaluate_loop evaluate defaultValue retries i w =
     (if i < retries then
        (case driver evaluate w of
           (Inr v, w1) \<Rightarrow> (Inr v, w1)
         | (Inl e, w1) \<Rightarrow>
             if isNavigationError e \<and> i + 1 < retries
             then safeEvaluate_loop evaluate defaultValue retries (i + 1)
                    (sleep 2000 (logger (SafeEvaluateRetry (i + 2) retries) w1))
             else (Inl e, w1))
      else (Inr defaultValue, w))"
  by pat_completeness auto
termination
  by (relation "measure (\<lambda>(evaluate, defaultValue, retries, i, w). retries - i)") auto

definition safeEvaluate :: "('p, 'a) browser_call \<Rightarrow> 'a \<Rightarrow> nat \<Rightarrow> ('p, 'a) action" where
  "safeEvaluate evaluate defaultValue retries w = safeEvaluate_loop evaluate defaultValue retries 0 w"

text \<open>
  A page whose state is the number of \<open>page.evaluate\<close> calls made so far, the
  \<open>k\<close>-th of which (from 0) ends as \<open>outcome k\<close>.
\<close>

definition scriptedPage :: "(nat \<Rightarrow> error + 'a) \<Rightarrow> (nat, 'a) browser_call" where
  "scriptedPage outcome k = (outcome k, Suc k)"



section \<open>The page as the in-page scripts see it\<close>

text \<open>
  An element carries what the scripts read from it: \<open>textContent\<close>, the \<open>value\<close> of
  an input, and whether \<open>offsetParent !== null\<close>. The document answers selector queries
  in document order and gives \<open>document.body.innerText\<close>.
\<close>

record element =
  textContent :: jsstring
  inputValue :: jsstring
  offsetParent :: bool

record dom =
  querySelectorAll :: "jsstring \<Rightarrow> element list"
  bodyInnerText :: jsstring

definition querySelector :: "dom \<Rightarrow> jsstring \<Rightarrow> element option" where
  "querySelector d sel = (case querySelectorAll d sel of [] \<Rightarrow> None | el # _ \<Rightarrow> Some el)"

text \<open>
  The browser driver, over an open type of page states. \<open>page.evaluate(script)\<close> either
  rejects (\<open>rejects\<close> gives the error: a destroyed context, a closed target, anything
  else) or runs the script on the current document; either way the page may have moved on.
  \<open>page.url()\<close> is synchronous; \<open>page.screenshot\<close> may reject.
\<close>

record 'p browser =
  rejects :: "'p \<Rightarrow> error option \<times> 'p"
  document :: "'p \<Rightarrow> dom"
  pageUrl :: "'p \<Rightarrow> jsstring"
  screenshot :: "jsstring \<Rightarrow> ('p, unit) browser_call"

definition page_evaluate :: "'p browser \<Rightarrow> (dom \<Rightarrow> 'a) \<Rightarrow> ('p, 'a) browser_call" where
  "page_evaluate b script p =
     (case rejects b p of
        (Some e, p1) \<Rightarrow> (Inl e, p1)
      | (None, p1) \<Rightarrow> (Inr (script (document b p1)), p1))"

subsection \<open>\<open>waitForPageLoad\<close>\<close>

definition loadingSelectors :: "jsstring list" where
  \<open>loadingSelectors =
     [js ''[class*="loading"]'', js ''[class*="spinner"]'', js ''[class*="Loading"]'',
      js ''[class*="Spinner"]'', js ''svg[class*="animate"]'', js ''[role="progressbar"]'']\<close>

fun hasLoading_loop :: "dom \<Rightarrow> jsstring list \<Rightarrow> bool" where
  "hasLoading_loop d [] = False"
| "hasLoading_loop d (sel # sels) =
     (case querySelector d sel of
        Some el \<Rightarrow> if offsetParent el then True else hasLoading_loop d sels
      | None \<Rightarrow> hasLoading_loop d sels)"

definition hasLoading :: "dom \<Rightarrow> bool" where
  "hasLoading d = hasLoading_loop d loadingSelectors"

text \<open>The test in the \<open>catch\<close> of \<open>waitForPageLoad\<close>: two substrings, not three.\<close>

definition isNavigating :: "error \<Rightarrow> bool" where
  "isNavigating e \<longleftrightarrow>
     js_includes (message e) (js ''Execution context was destroyed'')
     \<or> js_includes (message e) (js ''navigation'')"

text \<open>
  \<open>while (Date.now() - startTime < timeout) { try { ... } catch (e) { ... } await sleep(500) }\<close>.
  The clock only moves in \<open>sleep\<close>, so every round that neither returns nor throws
  brings the deadline at least 500 ms nearer.
\<close>

function waitForPageLoad_loop :: "'p browser \<Rightarrow> nat \<Rightarrow> nat \<Rightarrow> ('p, bool) action" where
  "waitForPageLoad_loop b timeout startTime w =
     (if now w - startTime < timeout then
        (case driver (page_evaluate b hasLoading) w of
           (Inr loading, w1) \<Rightarrow>
             if \<not> loading then (Inr True, w1)
             else waitForPageLoad_loop b timeout startTime (sleep 500 w1)
         | (Inl e, w1) \<Rightarrow>
             if isNavigating e then waitForPageLoad_loop b timeout startTime (sleep 1000 w1)
             else (Inl e, w1))
      else (Inr False, w))"
  by pat_completeness auto
termination
  by (relation "measure (\<lambda>(b, timeout, startTime, w). startTime + timeout - now w)")
     (auto simp: driver_def sleep_def split: prod.splits)

definition waitForPageLoad :: "'p browser \<Rightarrow> nat \<Rightarrow> ('p, bool) action" where
  "waitForPageLoad b timeout w = waitForPageLoad_loop b timeout (now w) w"


section \<open>The registration state machine\<close>

text \<open>
  Sequencing of asynchronous steps inside a \<open>try\<close> block: the first step that throws
  ends the block with what it threw.
\<close>

definition andThen ::
  "('p world \<Rightarrow> ('e + 'a) \<times> 'p world) \<Rightarrow> ('a \<Rightarrow> 'p world \<Rightarrow> ('e + 'b) \<times> 'p world)
     \<Rightarrow> 'p world \<Rightarrow> ('e + 'b) \<times> 'p world" where
  "andThen m f w = (case m w of (Inl e, w1) \<Rightarrow> (Inl e, w1) | (Inr v, w1) \<Rightarrow> f v w1)"

text \<open>
  Inside \<open>register\<close> a thrown value is an \<open>error option\<close>, since \<open>withRetry\<close> throws
  its \<open>lastError\<close> variable; what the driver throws is an \<open>Error\<close>.
\<close>

definition raising :: "('p, 'a) action \<Rightarrow> 'p world \<Rightarrow> (error option + 'a) \<times> 'p world" where
  "raising m w = (case m w of (Inl e, w1) \<Rightarrow> (Inl (Some e), w1) | (Inr v, w1) \<Rightarrow> (Inr v, w1))"

subsection \<open>\<open>checkForSignInIssue\<close>\<close>

definition errorSelector :: jsstring where
  \<open>errorSelector = js ''[class*="error"], [class*="Error"], [role="alert"]''\<close>

definition signInIssueScript :: "dom \<Rightarrow> bool" where
  "signInIssueScript d =
     (let bodyText = bodyInnerText d in
      if js_includes bodyText (js ''We ran into an issue'')
         \<or> js_includes bodyText (js ''please take a break'')
         \<or> js_includes bodyText (js ''try again soon'')
      then True
      else list_ex
             (\<lambda>el. let text = js_trim (textContent el)
                   in js_includes text (js ''We ran into an issue'') \<or> js_includes text (js ''try again''))
             (querySelectorAll d errorSelector))"

definition checkForSignInIssue :: "'p browser \<Rightarrow> ('p, bool) action" where
  "checkForSignInIssue b = safeEvaluate (page_evaluate b signInIssueScript) False 3"

subsection \<open>\<open>register\<close>\<close>

text \<open>
  The stage methods (\<open>clickLogin\<close>, \<open>enterEmail\<close>, ...) drive the page through the
  browser driver; what each does to the page and whether it throws is a parameter
  \<open>stages\<close>. Each invocation is recorded as an \<open>Invoked\<close> event before it runs.
  Every stage is wrapped by \<open>withRetry\<close> with 3 attempts and 2000 ms. The labels are
  the source's step names, as code units.
\<close>

definition stageStep ::
  "(stage \<Rightarrow> ('p, unit) browser_call) \<Rightarrow> stage \<Rightarrow> jsstring \<Rightarrow> 'p world
     \<Rightarrow> (error option + unit) \<times> 'p world" where
  "stageStep stages st label =
     withRetry (\<lambda>w. driver (stages st) (logger (Invoked st) w)) label 3 2000"

definition label_clickLogin :: jsstring where
  "label_clickLogin = [28857, 20987, 32] @ js ''Log in'' @ [32, 25353, 38062]"

definition label_clickSignUp :: jsstring where
  "label_clickSignUp = [28857, 20987, 20813, 36153, 27880, 20876, 25353, 38062]"

definition label_enterEmail :: jsstring where
  "label_enterEmail = [36755, 20837, 37038, 31665]"

definition label_enterPassword :: jsstring where
  "label_enterPassword = [36755, 20837, 23494, 30721]"

definition label_enterVerificationCode :: jsstring where
  "label_enterVerificationCode = [36755, 20837, 39564, 35777, 30721]"

definition label_enterNameAndBirthday :: jsstring where
  "label_enterNameAndBirthday = [36755, 20837, 20840, 21517, 21644, 29983, 26085]"

definition label_enterUsername :: jsstring where
  "label_enterUsername = [36755, 20837, 29992, 25143, 21517]"

definition signInIssueError :: error where
  "signInIssueError =
     Error (js ''We ran into an issue while signing you in, please take a break and try again soon.'')"

text \<open>Steps 1 to 6 of \<open>register\<close> and the two-second pause that follows them.\<close>

definition register_upto_issueCheck ::
  "(stage \<Rightarrow> ('p, unit) browser_call) \<Rightarrow> ('p, jsstring) browser_call \<Rightarrow> jsstring \<Rightarrow> jsstring
     \<Rightarrow> 'p world \<Rightarrow> (error option + unit) \<times> 'p world" where
  "register_upto_issueCheck stages getVerificationCode email password =
     andThen (stageStep stages ClickLogin label_clickLogin) (\<lambda>_.
     andThen (stageStep stages ClickSignUp label_clickSignUp) (\<lambda>_.
     andThen (stageStep stages (EnterEmail email) label_enterEmail) (\<lambda>_.
     andThen (stageStep stages (EnterPassword password) label_enterPassword) (\<lambda>_.
     andThen (raising (driver getVerificationCode)) (\<lambda>code.
     andThen (stageStep stages (EnterVerificationCode code) label_enterVerificationCode) (\<lambda>_.
     andThen (stageStep stages EnterNameAndBirthday label_enterNameAndBirthday) (\<lambda>_.
     (\<lambda>w. (Inr (), sleep 2000 w)))))))))"

text \<open>
  The completion check: the script that looks for an error element, and the
  classification of \<open>this.page.url()\<close>.
\<close>

fun errorText_loop :: "element list \<Rightarrow> jsstring option" where
  "errorText_loop [] = None"
| "errorText_loop (el # els) =
     (if length (js_trim (textContent el)) > 0 then Some (js_trim (textContent el))
      else errorText_loop els)"

definition errorTextScript :: "dom \<Rightarrow> jsstring option" where
  "errorTextScript d = errorText_loop (querySelectorAll d errorSelector)"

definition completionCheck :: "'p browser \<Rightarrow> 'p world \<Rightarrow> (error option + bool) \<times> 'p world" where
  "completionCheck b w =
     (let currentUrl = pageUrl b (page w);
          w1 = logger (CurrentPage currentUrl) w
      in if js_includes currentUrl (js ''auth.openai.com'') then
           (case safeEvaluate (page_evaluate b errorTextScript) None 3 w1 of
              (Inl e, w2) \<Rightarrow> (Inl (Some e), w2)
            | (Inr hasError, w2) \<Rightarrow>
                (case hasError of
                   Some text \<Rightarrow>
                     if text \<noteq> [] then (Inr False, logger (PageShowsError text) w2)
                     else (Inr False, logger (StillOnAuthPage currentUrl) w2)
                 | None \<Rightarrow> (Inr False, logger (StillOnAuthPage currentUrl) w2)))
         else if js_includes currentUrl (js ''sora.com'')
                 \<or> js_includes currentUrl (js ''chat.openai.com'')
                 \<or> js_includes currentUrl (js ''chatgpt.com'')
         then (Inr True, logger RegisterSucceeded w1)
         else (Inr False, logger (StatusUncertain currentUrl) w1))"

text \<open>Step 8: the pause, the best-effort screenshot of the final state, the check.\<close>

definition completion :: "'p browser \<Rightarrow> 'p world \<Rightarrow> (error option + bool) \<times> 'p world" where
  "completion b w =
     (let w1 = sleep 5000 w;
          w2 = (case driver (screenshot b (js ''debug-final-state.png'')) w1 of
                  (Inr _, w') \<Rightarrow> logger FinalStateSaved w'
                | (Inl _, w') \<Rightarrow> logger FinalStateFailed w')
      in completionCheck b w2)"

text \<open>From the inspection for the failure banner to the end of the \<open>try\<close> block.\<close>

definition register_from_issueCheck ::
  "'p browser \<Rightarrow> (stage \<Rightarrow> ('p, unit) browser_call) \<Rightarrow> 'p world \<Rightarrow> (error option + bool) \<times> 'p world" where
  "register_from_issueCheck b stages =
     andThen (raising (checkForSignInIssue b)) (\<lambda>hasSignInIssue.
       if hasSignInIssue then
         andThen (\<lambda>w. (Inr (), logger SignInIssueDetected w)) (\<lambda>_.
         andThen (raising (driver (screenshot b (js ''debug-signin-issue.png'')))) (\<lambda>_.
         (\<lambda>w. (Inl (Some signInIssueError), w))))
       else
         andThen (stageStep stages EnterUsername label_enterUsername) (\<lambda>_. completion b))"

text \<open>
  The \<open>catch\<close> of \<open>register\<close> logs \<open>error.message\<close>, takes a best-effort screenshot
  and rethrows. Reading \<open>message\<close> of \<open>undefined\<close> is itself a \<open>TypeError\<close>.
\<close>

definition undefinedMessageError :: error where
  "undefinedMessageError =
     Error (js ''Cannot read properties of undefined (reading '' @ [39] @ js ''message'' @ [39] @ js '')'')"

definition register ::
  "'p browser \<Rightarrow> (stage \<Rightarrow> ('p, unit) browser_call) \<Rightarrow> ('p, jsstring) browser_call
     \<Rightarrow> jsstring \<Rightarrow> jsstring \<Rightarrow> ('p, bool) action" where
  "register b stages getVerificationCode email password w =
     (case andThen (register_upto_issueCheck stages getVerificationCode email password)
             (\<lambda>_. register_from_issueCheck b stages) w of
        (Inr registered, w1) \<Rightarrow> (Inr registered, w1)
      | (Inl None, w1) \<Rightarrow> (Inl undefinedMessageError, w1)
      | (Inl (Some e), w1) \<Rightarrow>
          (Inl e, snd (driver (screenshot b (js ''debug-register-error.png''))
                         (logger (RegisterError (message e)) w1))))"


section \<open>Observing a run, and pages to run on\<close>

text \<open>
  \<open>appended Q w w'\<close>: from \<open>w\<close> to \<open>w'\<close> the event list only grew, and every new event
  satisfies \<open>Q\<close>.
\<close>

definition appended :: "(event \<Rightarrow> bool) \<Rightarrow> 'p world \<Rightarrow> 'p world \<Rightarrow> bool" where
  "appended Q w w' \<longleftrightarrow> (\<exists>new. events w' = events w @ new \<and> list_all Q new)"

text \<open>Concrete browsers used to exercise the model.\<close>

definition emptyDocument :: dom where
  "emptyDocument = \<lparr>querySelectorAll = (\<lambda>sel. []), bodyInnerText = []\<rparr>"

text \<open>
  A page that never changes: \<open>page.evaluate\<close> rejects with \<open>failure\<close> if given,
  the document and the URL are fixed, screenshots succeed.
\<close>

definition staticBrowser :: "error option \<Rightarrow> dom \<Rightarrow> jsstring \<Rightarrow> unit browser" where
  "staticBrowser failure d url =
     \<lparr>rejects = (\<lambda>p. (failure, p)), document = (\<lambda>p. d), pageUrl = (\<lambda>p. url),
      screenshot = (\<lambda>path p. (Inr (), p))\<rparr>"

definition world0 :: "unit world" where
  "world0 = \<lparr>now = 0, events = [], page = ()\<rparr>"


text \<open>
  A page scripted by the number of \<open>page.evaluate\<close> calls made so far: the \<open>k\<close>-th
  call (from 0) is rejected with \<open>failure k\<close> if given, and after \<open>k\<close> calls the
  document is \<open>doc k\<close>.
\<close>

definition pollingBrowser :: "(nat \<Rightarrow> error option) \<Rightarrow> (nat \<Rightarrow> dom) \<Rightarrow> nat browser" where
  "pollingBrowser failure doc =
     \<lparr>rejects = (\<lambda>k. (failure k, Suc k)), document = doc, pageUrl = (\<lambda>k. []),
      screenshot = (\<lambda>path k. (Inr (), k))\<rparr>"

definition spinnerDocument :: dom where
  \<open>spinnerDocument =
     \<lparr>querySelectorAll =
        (\<lambda>sel. if sel = js ''[class*="spinner"]''
               then [\<lparr>textContent = [], inputValue = [], offsetParent = True\<rparr>]
               else []),
      bodyInnerText = []\<rparr>\<close>

text \<open>
  A round of \<open>waitForPageLoad\<close> that neither returns nor throws: its poll saw a visible
  loading indicator, after which the loop sleeps 500 ms, or it was rejected by a
  navigation, after which the loop sleeps 1 s. \<open>idle b w\<close> says that the round starting
  in \<open>w\<close> is of this kind, and \<open>afterIdle b w\<close> is the world in which the next round
  then starts; \<open>(afterIdle b ^^ n) w\<close> is where round \<open>n\<close> starts when the rounds
  before it were idle.
\<close>

definition idle :: "'p browser \<Rightarrow> 'p world \<Rightarrow> bool" where
  "idle b w =
     (case rejects b (page w) of
        (None, p1) \<Rightarrow> hasLoading (document b p1)
      | (Some e, p1) \<Rightarrow> isNavigating e)"

definition afterIdle :: "'p browser \<Rightarrow> 'p world \<Rightarrow> 'p world" where
  "afterIdle b w =
     (case rejects b (page w) of
        (None, p1) \<Rightarrow> sleep 500 (w\<lparr>page := p1\<rparr>)
      | (Some e, p1) \<Rightarrow> sleep 1000 (w\<lparr>page := p1\<rparr>))"


text \<open>Stage methods that accept every input, and a code provider with a fixed code.\<close>

definition acceptingStages :: "stage \<Rightarrow> (unit, unit) browser_call" where
  "acceptingStages st p = (Inr (), p)"

definition fixedCode :: "jsstring \<Rightarrow> (unit, jsstring) browser_call" where
  "fixedCode code p = (Inr code, p)"

definition bannerDocument :: dom where
  "bannerDocument =
     \<lparr>querySelectorAll = (\<lambda>sel. []),
      bodyInnerText = js ''We ran into an issue while signing you in''\<rparr>"


definition hiddenErrorDocument :: dom where
  "hiddenErrorDocument =
     \<lparr>querySelectorAll =
        (\<lambda>sel. if sel = errorSelector
               then [\<lparr>textContent = js '' Username taken '', inputValue = [], offsetParent = False\<rparr>]
               else []),
      bodyInnerText = []\<rparr>"


section \<open>Birthday generation\<close>

text \<open>\<open>String(n)\<close> for an integer, and \<open>padStart(2, '0')\<close>.\<close>

function decimal :: "nat \<Rightarrow> jsstring" where
  "decimal n = (if n < 10 then [48 + n] else decimal (n div 10) @ [48 + n mod 10])"
  by pat_completeness auto
termination
  by (relation "measure id") auto

definition String_int :: "int \<Rightarrow> jsstring" where
  "String_int i = (if i < 0 then 45 # decimal (nat (- i)) else decimal (nat i))"

definition padStart2 :: "jsstring \<Rightarrow> jsstring" where
  "padStart2 s = replicate (2 - length s) 48 @ s"

text \<open>
  \<open>Math.random()\<close> is a parameter: a real number \<open>r\<close> with \<open>0 \<le> r < 1\<close>, one per
  call, and \<open>Math.floor(r * n)\<close> is computed exactly. (In double arithmetic the
  product of an \<open>r < 1\<close> with 22, 12 or 28 rounds to a double below that factor, so the
  floor stays in the same range.) \<open>currentYear\<close> is
  \<open>new Date().getFullYear()\<close>. The three numbers are computed by the same expressions in
  \<open>generateBirthday\<close> and inline in \<open>enterNameAndBirthday\<close>.
\<close>

definition birthYear :: "int \<Rightarrow> real \<Rightarrow> int" where
  "birthYear currentYear r = currentYear - \<lfloor>r * 22\<rfloor> - 18"

definition birthMonth :: "real \<Rightarrow> int" where
  "birthMonth r = \<lfloor>r * 12\<rfloor> + 1"

definition birthDay :: "real \<Rightarrow> int" where
  "birthDay r = \<lfloor>r * 28\<rfloor> + 1"

definition generateBirthday :: "bool \<Rightarrow> int \<Rightarrow> real \<Rightarrow> real \<Rightarrow> real \<Rightarrow> jsstring" where
  "generateBirthday isChinesePage currentYear r1 r2 r3 =
     (let year = birthYear currentYear r1;
          month = padStart2 (String_int (birthMonth r2));
          day = padStart2 (String_int (birthDay r3))
      in if isChinesePage
         then String_int year @ js ''/'' @ month @ js ''/'' @ day
         else month @ js ''/'' @ day @ js ''/'' @ String_int year)"

text \<open>The \<open>year\<close>, \<open>month\<close> and \<open>day\<close> constants of \<open>enterNameAndBirthday\<close>.\<close>

definition inlineBirthday :: "int \<Rightarrow> real \<Rightarrow> real \<Rightarrow> real \<Rightarrow> int \<times> int \<times> int" where
  "inlineBirthday currentYear r1 r2 r3 =
     (currentYear - \<lfloor>r1 * 22\<rfloor> - 18, \<lfloor>r2 * 12\<rfloor> + 1, \<lfloor>r3 * 28\<rfloor> + 1)"

text \<open>
  The age a date of birth yields at generation time: the completed years on the day of
  generation \<open>(year, month, day)\<close>, one less than the difference of the years while the
  birthday of the current year is still to come.
\<close>

definition ageOnDay :: "int \<times> int \<times> int \<Rightarrow> int \<times> int \<times> int \<Rightarrow> int" where
  "ageOnDay today born =
     (case (today, born) of ((cy, cm, cd), (y, m, d)) \<Rightarrow>
        cy - y - (if cm < m \<or> (cm = m \<and> cd < d) then 1 else 0))"


section \<open>Regular expressions\<close>

text \<open>
  The regular expressions of the source use character classes, quantified classes
  (greedy, and one lazy), the assertions \<open>^\<close>, \<open>$\<close> and \<open>\b\<close>, and at most one
  capture group; a literal is a sequence of one-element classes. A pattern is the list of
  its terms, matched from left to right by backtracking as ECMAScript prescribes: a greedy
  quantifier first tries one more repetition and gives it back when the rest of the pattern
  fails, a lazy one first tries to stop.
\<close>

datatype charset = Among "(nat \<times> nat) list" | NotAmong "(nat \<times> nat) list"

fun member_of :: "charset \<Rightarrow> nat \<Rightarrow> bool" where
  "member_of (Among rs) c = in_ranges c rs"
| "member_of (NotAmong rs) c = (\<not> in_ranges c rs)"

datatype node =
    One charset
  | Repeat charset nat "nat option" bool
  | WordBoundary
  | InputStart
  | InputEnd
  | GroupOpen
  | GroupClose

text \<open>The capture group: not entered, entered at an offset, or closed with both offsets.\<close>

datatype capture = NoGroup | Opened nat | Captured nat nat

definition isWordChar :: "nat \<Rightarrow> bool" where
  "isWordChar c = in_ranges c [(48, 57), (65, 90), (95, 95), (97, 122)]"

definition atWordChar :: "jsstring \<Rightarrow> bool" where
  "atWordChar s = (case s of [] \<Rightarrow> False | c # _ \<Rightarrow> isWordChar c)"

fun fewer :: "nat option \<Rightarrow> nat option" where
  "fewer None = None"
| "fewer (Some n) = Some (n - 1)"

text \<open>
  \<open>regex_run ns behind rest g\<close> matches the terms \<open>ns\<close> at the position that has the
  code units \<open>behind\<close> (nearest first) at its back and \<open>rest\<close> ahead, and gives the
  position and the capture where the match ends. \<open>Repeat cs lo hi greedy\<close> is the class
  \<open>cs\<close> repeated at least \<open>lo\<close> and, with \<open>hi = Some n\<close>, at most \<open>n\<close> times.
\<close>

function regex_run ::
  "node list \<Rightarrow> jsstring \<Rightarrow> jsstring \<Rightarrow> capture \<Rightarrow> (jsstring \<times> jsstring \<times> capture) option" where
  "regex_run [] behind rest g = Some (behind, rest, g)"
| "regex_run (One cs # ns) behind rest g =
     (case rest of
        [] \<Rightarrow> None
      | x # xs \<Rightarrow> if member_of cs x then regex_run ns (x # behind) xs g else None)"
| "regex_run (Repeat cs lo hi greedy # ns) behind rest g =
     (if greedy then
        (case (case rest of
                 [] \<Rightarrow> None
               | x # xs \<Rightarrow>
                   if member_of cs x \<and> hi \<noteq> Some 0
                   then regex_run (Repeat cs (lo - 1) (fewer hi) greedy # ns) (x # behind) xs g
                   else None) of
           Some r \<Rightarrow> Some r
         | None \<Rightarrow> if lo = 0 then regex_run ns behind rest g else None)
      else
        (case (if lo = 0 then regex_run ns behind rest g else None) of
           Some r \<Rightarrow> Some r
         | None \<Rightarrow>
             (case rest of
                [] \<Rightarrow> None
              | x # xs \<Rightarrow>
                  if member_of cs x \<and> hi \<noteq> Some 0
                  then regex_run (Repeat cs (lo - 1) (fewer hi) greedy # ns) (x # behind) xs g
                  else None)))"
| "regex_run (WordBoundary # ns) behind rest g =
     (if atWordChar behind \<noteq> atWordChar rest then regex_run ns behind rest g else None)"
| "regex_run (InputStart # ns) behind rest g =
     (if behind = [] then regex_run ns behind rest g else None)"
| "regex_run (InputEnd # ns) behind rest g =
     (if rest = [] then regex_run ns behind rest g else None)"
| "regex_run (GroupOpen # ns) behind rest g = regex_run ns behind rest (Opened (length behind))"
| "regex_run (GroupClose # ns) behind rest g =
     (case g of
        Opened i \<Rightarrow> regex_run ns behind rest (Captured i (length behind))
      | _ \<Rightarrow> regex_run ns behind rest g)"
  by pat_completeness auto
termination
  by (relation "measures [\<lambda>(ns, behind, rest, g). length ns, \<lambda>(ns, behind, rest, g). length rest]")
     auto

text \<open>
  The leftmost match: the pattern is tried at the current position and, when it fails
  there, one code unit further on. The result also gives the offset where the match starts.
\<close>

fun regex_search ::
  "node list \<Rightarrow> jsstring \<Rightarrow> jsstring \<Rightarrow> (nat \<times> jsstring \<times> jsstring \<times> capture) option" where
  "regex_search ns behind [] =
     (case regex_run ns behind [] NoGroup of
        Some r \<Rightarrow> Some (length behind, r)
      | None \<Rightarrow> None)"
| "regex_search ns behind (x # xs) =
     (case regex_run ns behind (x # xs) NoGroup of
        Some r \<Rightarrow> Some (length behind, r)
      | None \<Rightarrow> regex_search ns (x # behind) xs)"

text \<open>
  \<open>str.match(regex)\<close> for a regular expression without the \<open>g\<close> flag: \<open>null\<close>, or
  the array of the matched text \<open>match[0]\<close> and the text of the group \<open>match[1]\<close>
  (\<open>undefined\<close> when the pattern has no group).
\<close>

definition js_match :: "node list \<Rightarrow> jsstring \<Rightarrow> (jsstring \<times> jsstring option) option" where
  "js_match ns s =
     (case regex_search ns [] s of
        None \<Rightarrow> None
      | Some (start, behind, rest, g) \<Rightarrow>
          Some (rev (take (length behind - start) behind),
                (case g of Captured i j \<Rightarrow> Some (take (j - i) (drop i s)) | _ \<Rightarrow> None)))"

text \<open>The classes and literals the patterns are written with.\<close>

definition digit :: charset where
  "digit = Among [(48, 57)]"

definition colonOrSpace :: charset where
  "colonOrSpace = Among ((58, 58) # whiteSpace)"

definition literal :: "jsstring \<Rightarrow> node list" where
  "literal s = map (\<lambda>c. One (Among [(c, c)])) s"

text \<open>
  Under the \<open>i\<close> flag an ASCII letter of the pattern matches its two cases, and no
  code unit above 127 is canonicalised into ASCII.
\<close>

definition bothCases :: "nat \<Rightarrow> (nat \<times> nat) list" where
  "bothCases c =
     (if 97 \<le> c \<and> c \<le> 122 then [(c, c), (c - 32, c - 32)]
      else if 65 \<le> c \<and> c \<le> 90 then [(c, c), (c + 32, c + 32)]
      else [(c, c)])"

definition caseless :: "jsstring \<Rightarrow> node list" where
  "caseless s = map (\<lambda>c. One (Among (bothCases c))) s"


subsection \<open>What a match consumes\<close>

text \<open>
  A match consumes a prefix of the text ahead; the search for all matches terminates for
  that reason.
\<close>

declare regex_run.simps(3) [simp del]

text \<open>
  Facts about \<open>regex_run\<close> are proved by induction on the pattern and, under a
  quantifier, on the input.
\<close>

lemma regex_run_induct [case_names Empty One Repeat WordBoundary InputStart InputEnd GroupOpen GroupClose]:
  assumes empty: "\<And>behind rest g. P [] behind rest g"
    and one: "\<And>cs ns behind rest g.
        (\<And>x xs. rest = x # xs \<Longrightarrow> P ns (x # behind) xs g) \<Longrightarrow> P (One cs # ns) behind rest g"
    and rep: "\<And>cs lo hi greedy ns behind rest g.
        (\<And>x xs. rest = x # xs \<Longrightarrow> P (Repeat cs (lo - 1) (fewer hi) greedy # ns) (x # behind) xs g)
        \<Longrightarrow> P ns behind rest g \<Longrightarrow> P (Repeat cs lo hi greedy # ns) behind rest g"
    and wb: "\<And>ns behind rest g. P ns behind rest g \<Longrightarrow> P (WordBoundary # ns) behind rest g"
    and start: "\<And>ns behind rest g. P ns behind rest g \<Longrightarrow> P (InputStart # ns) behind rest g"
    and fin: "\<And>ns behind rest g. P ns behind rest g \<Longrightarrow> P (InputEnd # ns) behind rest g"
    and gopen: "\<And>ns behind rest g. (\<And>g'. P ns behind rest g') \<Longrightarrow> P (GroupOpen # ns) behind rest g"
    and gclose: "\<And>ns behind rest g. (\<And>g'. P ns behind rest g') \<Longrightarrow> P (GroupClose # ns) behind rest g"
  shows "P ns behind rest g"
proof -
  have "\<forall>behind rest g. P ns behind rest g"
  proof (induction ns)
    case Nil
    show ?case by (simp add: empty)
  next
    case (Cons n ns)
    have IH: "P ns behind rest g" for behind rest g
      using Cons.IH by blast
    have "P (n # ns) behind rest g" for behind rest g
    proof (cases n)
      case (One cs)
      show ?thesis unfolding One by (rule one) (rule IH)
    next
      case (Repeat cs lo hi greedy)
      have "P (Repeat cs lo hi greedy # ns) behind rest g" for lo hi
      proof (induction rest arbitrary: behind lo hi)
        case Nil
        show ?case by (rule rep) (simp_all add: IH)
      next
        case inner: (Cons y ys)
        show ?case
        proof (rule rep)
          fix x xs
          assume "y # ys = x # xs"
          then show "P (Repeat cs (lo - 1) (fewer hi) greedy # ns) (x # behind) xs g"
            using inner.IH [where behind = "y # behind" and lo = "lo - 1" and hi = "fewer hi"] by simp
        next
          show "P ns behind (y # ys) g" by (rule IH)
        qed
      qed
      then show ?thesis unfolding Repeat .
    next
      case WordBoundary
      show ?thesis unfolding WordBoundary by (rule wb) (rule IH)
    next
      case InputStart
      show ?thesis unfolding InputStart by (rule start) (rule IH)
    next
      case InputEnd
      show ?thesis unfolding InputEnd by (rule fin) (rule IH)
    next
      case GroupOpen
      show ?thesis unfolding GroupOpen by (rule gopen) (rule IH)
    next
      case GroupClose
      show ?thesis unfolding GroupClose by (rule gclose) (rule IH)
    qed
    then show ?case by blast
  qed
  then show ?thesis by blast
qed

lemma regex_run_One:
  "regex_run (One cs # ns) behind rest g = Some r
     \<Longrightarrow> \<exists>x xs. rest = x # xs \<and> member_of cs x \<and> regex_run ns (x # behind) xs g = Some r"
  by (cases rest) (auto split: if_splits)

lemma regex_run_Repeat:
  "regex_run (Repeat cs lo hi greedy # ns) behind rest g = Some r
     \<Longrightarrow> (lo = 0 \<and> regex_run ns behind rest g = Some r)
       \<or> (\<exists>x xs. rest = x # xs \<and> member_of cs x \<and> hi \<noteq> Some 0
             \<and> regex_run (Repeat cs (lo - 1) (fewer hi) greedy # ns) (x # behind) xs g = Some r)"
  by (subst (asm) regex_run.simps(3)) (auto split: if_splits option.splits list.splits)

lemma regex_run_GroupClose:
  "regex_run (GroupClose # ns) behind rest g = Some r
     \<Longrightarrow> \<exists>g'. regex_run ns behind rest g' = Some r"
  by (cases g) auto

lemma regex_run_consumes:
  "regex_run ns behind rest g = Some (b', r', g')
     \<Longrightarrow> \<exists>taken. rest = taken @ r' \<and> b' = rev taken @ behind"
proof (induction ns behind rest g rule: regex_run_induct)
  case (Empty behind rest g)
  then show ?case by simp
next
  case (One cs ns behind rest g)
  from regex_run_One [OF One.prems] obtain x xs
    where x: "rest = x # xs" "regex_run ns (x # behind) xs g = Some (b', r', g')" by blast
  from One.IH [OF x] obtain taken where "xs = taken @ r'" "b' = rev taken @ x # behind" by blast
  then have "rest = (x # taken) @ r' \<and> b' = rev (x # taken) @ behind" using x(1) by simp
  then show ?case by blast
next
  case (Repeat cs lo hi greedy ns behind rest g)
  from regex_run_Repeat [OF Repeat.prems] show ?case
  proof
    assume "lo = 0 \<and> regex_run ns behind rest g = Some (b', r', g')"
    then show ?thesis using Repeat.IH(2) by blast
  next
    assume "\<exists>x xs. rest = x # xs \<and> member_of cs x \<and> hi \<noteq> Some 0
             \<and> regex_run (Repeat cs (lo - 1) (fewer hi) greedy # ns) (x # behind) xs g = Some (b', r', g')"
    then obtain x xs where x: "rest = x # xs"
        "regex_run (Repeat cs (lo - 1) (fewer hi) greedy # ns) (x # behind) xs g = Some (b', r', g')"
      by blast
    from Repeat.IH(1) [OF x] obtain taken where "xs = taken @ r'" "b' = rev taken @ x # behind" by blast
    then have "rest = (x # taken) @ r' \<and> b' = rev (x # taken) @ behind" using x(1) by simp
    then show ?thesis by blast
  qed
next
  case (GroupClose ns behind rest g)
  from regex_run_GroupClose [OF GroupClose.prems] GroupClose.IH show ?case by blast
qed (auto split: if_splits)

lemma regex_search_consumes:
  "regex_search ns behind rest = Some (start, b', r', g')
     \<Longrightarrow> \<exists>skipped taken. rest = skipped @ taken @ r' \<and> b' = rev taken @ rev skipped @ behind
           \<and> start = length behind + length skipped"
proof (induction rest arbitrary: behind)
  case Nil
  then obtain taken where "[] = taken @ r' \<and> b' = rev taken @ behind" "start = length behind"
    using regex_run_consumes [of ns behind "[]" NoGroup b' r' g']
    by (auto split: option.splits)
  then show ?case by simp
next
  case (Cons x xs)
  show ?case
  proof (cases "regex_run ns behind (x # xs) NoGroup")
    case (Some r)
    then have r: "r = (b', r', g')" "start = length behind" using Cons.prems by auto
    then obtain taken where "x # xs = taken @ r' \<and> b' = rev taken @ behind"
      using regex_run_consumes [of ns behind "x # xs" NoGroup b' r' g'] Some by auto
    then have "x # xs = [] @ taken @ r' \<and> b' = rev taken @ rev [] @ behind
               \<and> start = length behind + length ([] :: jsstring)"
      using r by simp
    then show ?thesis by blast
  next
    case None
    then have "regex_search ns (x # behind) xs = Some (start, b', r', g')"
      using Cons.prems by simp
    from Cons.IH [OF this] obtain skipped taken
      where "xs = skipped @ taken @ r'" "b' = rev taken @ rev skipped @ x # behind"
            "start = length (x # behind) + length skipped" by blast
    then have "x # xs = (x # skipped) @ taken @ r' \<and> b' = rev taken @ rev (x # skipped) @ behind
               \<and> start = length behind + length (x # skipped)"
      by simp
    then show ?thesis by blast
  qed
qed

text \<open>
  \<open>str.match(regex)\<close> for a regular expression with the \<open>g\<close> flag: the matched
  texts from left to right, each search resuming where the last match ended (one code unit
  further on after an empty match). The empty list stands for \<open>null\<close>.
\<close>

function js_matchAll_from :: "node list \<Rightarrow> jsstring \<Rightarrow> jsstring \<Rightarrow> jsstring list" where
  "js_matchAll_from ns behind rest =
     (case regex_search ns behind rest of
        None \<Rightarrow> []
      | Some (start, b', r', g) \<Rightarrow>
          rev (take (length b' - start) b') #
            (if length b' = start
             then (case r' of [] \<Rightarrow> [] | x # xs \<Rightarrow> js_matchAll_from ns (x # b') xs)
             else js_matchAll_from ns b' r'))"
  by pat_completeness auto
termination
proof (relation "measure (\<lambda>(ns, behind, rest). length rest)", goal_cases)
  case 1
  show ?case by simp
next
  case (2 ns behind rest r start rb b' rr r' g x xs)
  then have "regex_search ns behind rest = Some (start, b', x # xs, g)" by simp
  from regex_search_consumes [OF this] show ?case by auto
next
  case (3 ns behind rest r start rb b' rr r' g)
  then have "regex_search ns behind rest = Some (start, b', r', g)" by simp
  from regex_search_consumes [OF this] 3 show ?case by auto
qed

declare js_matchAll_from.simps [simp del]

definition js_matchAll :: "node list \<Rightarrow> jsstring \<Rightarrow> jsstring list" where
  "js_matchAll ns s = js_matchAll_from ns [] s"


section \<open>The inbox bridge\<close>

subsection \<open>\<open>getEmailAddress\<close>\<close>

text \<open>
  \<open>/[a-zA-Z0-9._%+-]+@[a-zA-Z0-9.-]+\.[a-zA-Z]{2,}/\<close>, with \<open>^\<close> and \<open>$\<close> around it
  for the value of an input.
\<close>

definition emailShape :: "node list" where
  "emailShape =
     [Repeat (Among [(97, 122), (65, 90), (48, 57), (46, 46), (95, 95), (37, 37), (43, 43), (45, 45)])
        1 None True,
      One (Among [(64, 64)]),
      Repeat (Among [(97, 122), (65, 90), (48, 57), (46, 46), (45, 45)]) 1 None True,
      One (Among [(46, 46)]),
      Repeat (Among [(97, 122), (65, 90)]) 2 None True]"

definition wholeEmail :: "node list" where
  "wholeEmail = InputStart # emailShape @ [InputEnd]"

text \<open>The script that reads the address off the page: first the inputs, then the text.\<close>

fun emailInput_loop :: "element list \<Rightarrow> jsstring option" where
  "emailInput_loop [] = None"
| "emailInput_loop (input # inputs) =
     (if inputValue input \<noteq> [] \<and> js_includes (inputValue input) (js ''@'')
         \<and> js_includes (inputValue input) (js ''.'')
         \<and> js_match wholeEmail (js_trim (inputValue input)) \<noteq> None
      then Some (js_trim (inputValue input))
      else emailInput_loop inputs)"

fun firstNonPlaceholder :: "jsstring list \<Rightarrow> jsstring option" where
  "firstNonPlaceholder [] = None"
| "firstNonPlaceholder (email # matches) =
     (if \<not> js_includes email (js ''example'') \<and> \<not> js_includes email (js ''test@'')
      then Some email
      else firstNonPlaceholder matches)"

definition emailScript :: "dom \<Rightarrow> jsstring option" where
  "emailScript d =
     (case emailInput_loop (querySelectorAll d (js ''input'')) of
        Some v \<Rightarrow> Some v
      | None \<Rightarrow>
          (case js_matchAll emailShape (bodyInnerText d) of
             [] \<Rightarrow> None
           | m # ms \<Rightarrow>
               (case firstNonPlaceholder (m # ms) of
                  Some email \<Rightarrow> Some email
                | None \<Rightarrow> Some m)))"

text \<open>
  The two tests of the script, by name: an input holds an address when its value passes
  the three checks of the first loop, and a token is a placeholder when the filter of the
  second loop skips it.
\<close>

definition holdsEmail :: "element \<Rightarrow> bool" where
  "holdsEmail input \<longleftrightarrow>
     inputValue input \<noteq> [] \<and> js_includes (inputValue input) (js ''@'')
     \<and> js_includes (inputValue input) (js ''.'')
     \<and> js_match wholeEmail (js_trim (inputValue input)) \<noteq> None"

definition placeholder :: "jsstring \<Rightarrow> bool" where
  "placeholder email \<longleftrightarrow> js_includes email (js ''example'') \<or> js_includes email (js ''test@'')"

definition addressNotFound :: error where
  "addressNotFound =
     Error [26080, 27861, 33719, 21462, 20020, 26102, 37038, 31665, 22320, 22336, 65292,
            35831, 26816, 26597, 25130, 22270]"

text \<open>The branch taken when \<open>this.email\<close> is falsy: screenshot, log, throw.\<close>

definition reportNoEmail :: "'p browser \<Rightarrow> ('p, jsstring) action" where
  "reportNoEmail b =
     andThen (driver (screenshot b (js ''debug-no-email.png''))) (\<lambda>_.
     (\<lambda>w. (Inl addressNotFound, logger EmailNotFound w)))"

text \<open>
  The \<open>try\<close> block of \<open>getEmailAddress\<close>. \<open>page.waitForFunction\<close> is a parameter:
  its rejection is caught and only logged.
\<close>

definition getEmailAddress_try :: "'p browser \<Rightarrow> ('p, unit) browser_call \<Rightarrow> ('p, jsstring) action" where
  "getEmailAddress_try b waitForFunction =
     andThen (\<lambda>w. (Inr (), sleep 2000 w)) (\<lambda>_.
     andThen (driver (page_evaluate b (\<lambda>d. length (querySelectorAll d (js ''input''))))) (\<lambda>n.
     andThen (\<lambda>w. (Inr (), logger (InputsFound n) w)) (\<lambda>_.
     andThen (\<lambda>w. case driver waitForFunction w of
                     (Inl _, w1) \<Rightarrow> (Inr (), logger WaitTimedOut w1)
                   | (Inr _, w1) \<Rightarrow> (Inr (), w1)) (\<lambda>_.
     andThen (driver (page_evaluate b emailScript)) (\<lambda>email.
       case email of
         Some address \<Rightarrow>
           if address \<noteq> [] then (\<lambda>w. (Inr address, logger (EmailObtained address) w))
           else reportNoEmail b
       | None \<Rightarrow> reportNoEmail b)))))"

definition getEmailAddress :: "'p browser \<Rightarrow> ('p, unit) browser_call \<Rightarrow> ('p, jsstring) action" where
  "getEmailAddress b waitForFunction w =
     (case getEmailAddress_try b waitForFunction w of
        (Inr email, w1) \<Rightarrow> (Inr email, w1)
      | (Inl e, w1) \<Rightarrow>
          (case driver (screenshot b (js ''debug-tempmail-error.png''))
                  (logger (EmailFailed (message e)) w1) of
             (Inl e2, w2) \<Rightarrow> (Inl e2, w2)
           | (Inr _, w2) \<Rightarrow> (Inl e, w2)))"

subsection \<open>\<open>extractVerificationCode\<close>\<close>

text \<open>The \<open>codePatterns\<close> array, in the order of the source.\<close>

definition sixDigits :: "node list" where
  "sixDigits = [GroupOpen, Repeat digit 6 (Some 6) True, GroupClose]"

definition codePatterns :: "node list list" where
  "codePatterns =
     [caseless (js ''verification code'') @ Repeat colonOrSpace 1 None True # sixDigits,
      caseless (js ''verify'') @ Repeat colonOrSpace 1 None True # sixDigits,
      caseless (js ''code'') @ Repeat colonOrSpace 1 None True # sixDigits,
      literal [39564, 35777, 30721] @ Repeat colonOrSpace 0 None True # sixDigits,
      caseless (js ''Your code is'') @ Repeat colonOrSpace 0 None True # sixDigits,
      caseless (js ''Enter this code'') @ Repeat colonOrSpace 0 None True # sixDigits,
      WordBoundary # sixDigits @ [WordBoundary]]"

text \<open>
  \<open>for (const pattern of codePatterns) { const match = bodyText.match(pattern);
  if (match) return match[1]; } return null;\<close>
\<close>

fun extractCode_loop :: "node list list \<Rightarrow> jsstring \<Rightarrow> jsstring option" where
  "extractCode_loop [] bodyText = None"
| "extractCode_loop (pattern # patterns) bodyText =
     (case js_match pattern bodyText of
        Some (whole, group1) \<Rightarrow> group1
      | None \<Rightarrow> extractCode_loop patterns bodyText)"

definition extractCodeScript :: "dom \<Rightarrow> jsstring option" where
  "extractCodeScript d = extractCode_loop codePatterns (bodyInnerText d)"

definition extractVerificationCode :: "'p browser \<Rightarrow> ('p, jsstring option) action" where
  "extractVerificationCode b = driver (page_evaluate b extractCodeScript)"

text \<open>What "a body containing a 6-digit sequence" means: six digits in a row somewhere.\<close>

fun digitsAhead :: "nat \<Rightarrow> jsstring \<Rightarrow> bool" where
  "digitsAhead 0 s = True"
| "digitsAhead (Suc n) [] = False"
| "digitsAhead (Suc n) (c # s) = (member_of digit c \<and> digitsAhead n s)"

fun hasDigitRun :: "nat \<Rightarrow> jsstring \<Rightarrow> bool" where
  "hasDigitRun n [] = digitsAhead n []"
| "hasDigitRun n (c # s) = (digitsAhead n (c # s) \<or> hasDigitRun n s)"

text \<open>
  \<open>afterNonDigit behind skip\<close>: the position reached from \<open>behind\<close> by passing over
  \<open>skip\<close> is the start of the text or follows a code unit that is not a digit.
\<close>

definition afterNonDigit :: "jsstring \<Rightarrow> jsstring \<Rightarrow> bool" where
  "afterNonDigit behind skip =
     (case rev skip @ behind of [] \<Rightarrow> True | c # _ \<Rightarrow> \<not> member_of digit c)"

definition bodyDocument :: "jsstring \<Rightarrow> dom" where
  "bodyDocument text = \<lparr>querySelectorAll = (\<lambda>sel. []), bodyInnerText = text\<rparr>"


text \<open>A page with the given input values, in document order, and the given text.\<close>

definition inboxDocument :: "jsstring list \<Rightarrow> jsstring \<Rightarrow> dom" where
  "inboxDocument values innerText =
     \<lparr>querySelectorAll =
        (\<lambda>sel. if sel = js ''input''
               then map (\<lambda>v. \<lparr>textContent = [], inputValue = v, offsetParent = True\<rparr>) values
               else []),
      bodyInnerText = innerText\<rparr>"

text \<open>A \<open>waitForFunction\<close> that resolves at once.\<close>

definition waitResolves :: "(unit, unit) browser_call" where
  "waitResolves p = (Inr (), p)"


section \<open>Token harvest: exchanging the session token\<close>

text \<open>
  The values that cross the page boundary and come out of \<open>JSON.parse\<close>. An object is
  the list of its own properties. \<open>truthy\<close> is ECMAScript's ToBoolean.
\<close>

datatype jsval =
    JUndefined | JNull | JBool bool | JNum real | JStr jsstring
  | JArr "jsval list" | JObj "(jsstring \<times> jsval) list"





record tokens =
  accessToken :: jsval
  user :: jsval
  expires :: jsval
















section \<open>Verified properties\<close>

subsection \<open>Retry wrapper\<close>

declare withRetry_loop.simps [simp del]
declare safeEvaluate_loop.simps [simp del]






subsection \<open>Navigation-safe evaluation\<close>

lemma safeEvaluate_loop_first_settled:
  assumes "\<forall>j. i \<le> j \<and> j < k \<longrightarrow> (\<exists>e. outcome j = Inl e \<and> isNavigationError e)"
    and "\<not> (\<exists>e. outcome k = Inl e \<and> isNavigationError e)"
    and "page w = i" and "i \<le> k" and "k < N"
  shows "fst (safeEvaluate_loop (scriptedPage outcome) d N i w) = outcome k
         \<and> page (snd (safeEvaluate_loop (scriptedPage outcome) d N i w)) = k + 1"
  using assms
proof (induction "k - i" arbitrary: i w)
  case 0
  then have "i = k" by simp
  then show ?case using "0.prems"
    by (subst (1 2) safeEvaluate_loop.simps)
       (auto simp: scriptedPage_def driver_def split: sum.splits)
next
  case (Suc n)
  then have lt: "i < k" by simp
  then obtain e where e: "outcome i = Inl e" "isNavigationError e"
    using Suc.prems(1) by auto
  let ?w = "sleep 2000 (logger (SafeEvaluateRetry (i + 2) N) (w\<lparr>page := Suc i\<rparr>))"
  have step: "safeEvaluate_loop (scriptedPage outcome) d N i w
                = safeEvaluate_loop (scriptedPage outcome) d N (i + 1) ?w"
    using lt e Suc.prems(3,5)
    by (subst safeEvaluate_loop.simps) (simp add: scriptedPage_def driver_def)
  have pg: "page ?w = i + 1"
    by (simp add: sleep_def logger_def)
  show ?case
    unfolding step
    using Suc.hyps(2) Suc.prems lt pg
    by (intro Suc.hyps(1)) auto
qed

lemma safeEvaluate_loop_all_navigation:
  assumes "\<forall>j. i \<le> j \<and> j < N \<longrightarrow> (\<exists>e. outcome j = Inl e \<and> isNavigationError e)"
    and "page w = i" and "i < N"
  shows "fst (safeEvaluate_loop (scriptedPage outcome) d N i w) = outcome (N - 1)
         \<and> page (snd (safeEvaluate_loop (scriptedPage outcome) d N i w)) = N"
  using assms
proof (induction "N - i" arbitrary: i w)
  case 0
  then show ?case by simp
next
  case (Suc n)
  obtain e where e: "outcome i = Inl e" "isNavigationError e"
    using Suc.prems by auto
  show ?case
  proof (cases "i + 1 < N")
    case True
    let ?w = "sleep 2000 (logger (SafeEvaluateRetry (i + 2) N) (w\<lparr>page := Suc i\<rparr>))"
    have step: "safeEvaluate_loop (scriptedPage outcome) d N i w
                  = safeEvaluate_loop (scriptedPage outcome) d N (i + 1) ?w"
      using True e Suc.prems(2)
      by (subst safeEvaluate_loop.simps) (simp add: scriptedPage_def driver_def)
    have pg: "page ?w = i + 1"
      by (simp add: sleep_def logger_def)
    show ?thesis
      unfolding step
      using Suc.hyps(2) Suc.prems True pg
      by (intro Suc.hyps(1)) auto
  next
    case False
    then have "i = N - 1" "i + 1 = N" using Suc.prems(3) by auto
    then show ?thesis
      using e Suc.prems(2,3)
      by (subst (1 2) safeEvaluate_loop.simps) (simp add: scriptedPage_def driver_def)
  qed
qed


text \<open>
  What the loop does, for every sequence of outcomes. Number the \<open>page.evaluate\<close>
  calls of one \<open>safeEvaluate\<close> from 0. While attempts remain, a navigation-class
  rejection is absorbed and the evaluation is repeated; the first attempt
  \<open>k < attempts\<close> that does not end in a navigation-class rejection decides the call:
  its value is returned, or its (non-navigation) error is thrown at once, and no further
  evaluation is made. When all \<open>attempts\<close> evaluations are rejected with
  navigation-class errors, the last of them is thrown to the caller.
\<close>

lemma safeEvaluate_retry_policy:
  fixes outcome :: "nat \<Rightarrow> error + 'a" and w :: "nat world"
  assumes "page w = 0"
  shows
    "(\<forall>k<N. (\<forall>j<k. \<exists>e. outcome j = Inl e \<and> isNavigationError e)
          \<and> \<not> (\<exists>e. outcome k = Inl e \<and> isNavigationError e) \<longrightarrow>
        fst (safeEvaluate (scriptedPage outcome) d N w) = outcome k
        \<and> page (snd (safeEvaluate (scriptedPage outcome) d N w)) = k + 1)
     \<and> (0 < N \<and> (\<forall>j<N. \<exists>e. outcome j = Inl e \<and> isNavigationError e) \<longrightarrow>
        fst (safeEvaluate (scriptedPage outcome) d N w) = outcome (N - 1)
        \<and> page (snd (safeEvaluate (scriptedPage outcome) d N w)) = N)"
proof (intro conjI impI allI)
  fix k
  assume "k < N"
    and a: "(\<forall>j<k. \<exists>e. outcome j = Inl e \<and> isNavigationError e)
          \<and> \<not> (\<exists>e. outcome k = Inl e \<and> isNavigationError e)"
  then have "fst (safeEvaluate_loop (scriptedPage outcome) d N 0 w) = outcome k
         \<and> page (snd (safeEvaluate_loop (scriptedPage outcome) d N 0 w)) = k + 1"
    using assms by (intro safeEvaluate_loop_first_settled) auto
  then show "fst (safeEvaluate (scriptedPage outcome) d N w) = outcome k"
    and "page (snd (safeEvaluate (scriptedPage outcome) d N w)) = k + 1"
    by (auto simp: safeEvaluate_def)
next
  assume a: "0 < N \<and> (\<forall>j<N. \<exists>e. outcome j = Inl e \<and> isNavigationError e)"
  then have "fst (safeEvaluate_loop (scriptedPage outcome) d N 0 w) = outcome (N - 1)
         \<and> page (snd (safeEvaluate_loop (scriptedPage outcome) d N 0 w)) = N"
    using assms by (intro safeEvaluate_loop_all_navigation) auto
  then show "fst (safeEvaluate (scriptedPage outcome) d N w) = outcome (N - 1)"
    and "page (snd (safeEvaluate (scriptedPage outcome) d N w)) = N"
    by (auto simp: safeEvaluate_def)
qed

lemma safeEvaluate_retry_policy_example:
  "fst (safeEvaluate (scriptedPage (\<lambda>k. if k < 1 then Inl (Error (js ''navigation'')) else Inl (Error (js ''boom'')) :: error + bool))
          False 3 \<lparr>now = 0, events = [], page = 0\<rparr>) = Inl (Error (js ''boom''))
   \<and> page (snd (safeEvaluate (scriptedPage (\<lambda>k. if k < 1 then Inl (Error (js ''navigation'')) else Inl (Error (js ''boom'')) :: error + bool))
          False 3 \<lparr>now = 0, events = [], page = 0\<rparr>)) = 2
   \<and> fst (safeEvaluate (scriptedPage (\<lambda>k. Inl (Error (js ''navigation'')) :: error + bool))
          False 3 \<lparr>now = 0, events = [], page = 0\<rparr>) = Inl (Error (js ''navigation''))
   \<and> page (snd (safeEvaluate (scriptedPage (\<lambda>k. Inl (Error (js ''navigation'')) :: error + bool))
          False 3 \<lparr>now = 0, events = [], page = 0\<rparr>)) = 3"
proof -
  have nav: "isNavigationError (Error (js ''navigation''))"
    by (simp add: isNavigationError_def js_def)
  have boom: "\<not> isNavigationError (Error (js ''boom''))"
    by (simp add: isNavigationError_def js_def)
  have p0: "page \<lparr>now = 0, events = [], page = 0::nat\<rparr> = 0" by simp
  show ?thesis
    using safeEvaluate_retry_policy [OF p0, of 3
            "\<lambda>k. if k < 1 then Inl (Error (js ''navigation'')) else Inl (Error (js ''boom'')) :: error + bool" False,
            THEN conjunct1, rule_format, of 1]
          safeEvaluate_retry_policy [OF p0, of 3
            "\<lambda>k. Inl (Error (js ''navigation'')) :: error + bool" False, THEN conjunct2]
          nav boom
    by simp
qed

text \<open>
  C3. Non-navigation errors propagate at once, as claimed, but a navigation-class error
  is surfaced: \<open>safeEvaluate(fn, false)\<close> with the default three attempts, on a page
  whose every evaluation is rejected with "Execution context was destroyed", throws that
  error to its caller instead of returning the default \<open>false\<close>. The guard
  \<open>i < retries - 1\<close> around \<open>continue\<close> lets the last attempt fall through to
  \<open>throw e\<close>, so the \<open>return defaultValue\<close> after the loop is never reached.
\<close>

theorem safeEvaluate_navigation_surfaced:
  "isNavigationError (Error (js ''Execution context was destroyed''))
   \<and> fst (safeEvaluate
            (page_evaluate (staticBrowser (Some (Error (js ''Execution context was destroyed'')))
                              emptyDocument [])
               signInIssueScript)
            False 3 world0)
       = Inl (Error (js ''Execution context was destroyed''))"
  by (simp add: safeEvaluate_def safeEvaluate_loop.simps page_evaluate_def staticBrowser_def
        driver_def world0_def isNavigationError_def js_def sleep_def logger_def)

lemma safeEvaluate_loop_default_unused:
  assumes "i < retries"
  shows "safeEvaluate_loop evaluate d retries i w = safeEvaluate_loop evaluate d' retries i w
         \<and> (\<forall>v w'. safeEvaluate_loop evaluate d retries i w = (Inr v, w')
               \<longrightarrow> (\<exists>p. evaluate p = (Inr v, page w')))"
  using assms
proof (induction "retries - i" arbitrary: i w)
  case 0
  then show ?case by simp
next
  case (Suc n)
  obtain r p where ev: "evaluate (page w) = (r, p)" by (cases "evaluate (page w)")
  show ?case
  proof (cases r)
    case (Inr v)
    then show ?thesis
      using ev Suc.prems
      by (subst (1 2 3) safeEvaluate_loop.simps) (auto simp: driver_def)
  next
    case (Inl e)
    show ?thesis
    proof (cases "isNavigationError e \<and> i + 1 < retries")
      case True
      let ?w = "sleep 2000 (logger (SafeEvaluateRetry (i + 2) retries) (w\<lparr>page := p\<rparr>))"
      have step: "\<And>x. safeEvaluate_loop evaluate x retries i w
                    = safeEvaluate_loop evaluate x retries (i + 1) ?w"
        using True Inl ev Suc.prems
        by (subst safeEvaluate_loop.simps) (simp add: driver_def)
      have "n = retries - (i + 1)" using Suc.hyps(2) by simp
      from Suc.hyps(1) [OF this, of ?w] True show ?thesis
        unfolding step by simp
    next
      case False
      then show ?thesis
        using Inl ev Suc.prems
        by (subst (1 2 3) safeEvaluate_loop.simps) (auto simp: driver_def)
    qed
  qed
qed

text \<open>
  C4. For every page behaviour, every \<open>defaultValue\<close> and every \<open>retries \<ge> 1\<close>, the
  outcome of \<open>safeEvaluate\<close> does not depend on \<open>defaultValue\<close>, and every value it
  returns is the value of a successful \<open>page.evaluate\<close> call: the final
  \<open>return defaultValue\<close> is never reached.
\<close>

theorem safeEvaluate_default_unreachable:
  assumes "1 \<le> retries"
  shows "safeEvaluate evaluate d retries w = safeEvaluate evaluate d' retries w
         \<and> (\<forall>v w'. safeEvaluate evaluate d retries w = (Inr v, w')
               \<longrightarrow> (\<exists>p. evaluate p = (Inr v, page w')))"
  unfolding safeEvaluate_def
  using assms by (intro safeEvaluate_loop_default_unused) simp

theorem safeEvaluate_default_unreachable_witness:
  "safeEvaluate (scriptedPage (\<lambda>k. if k < 1 then Inl (Error (js ''navigation'')) else Inr (7::nat))) 0 3
       \<lparr>now = 0, events = [], page = 0\<rparr>
     = safeEvaluate (scriptedPage (\<lambda>k. if k < 1 then Inl (Error (js ''navigation'')) else Inr (7::nat))) 1 3
       \<lparr>now = 0, events = [], page = 0\<rparr>
   \<and> (1::nat) \<le> 3"
proof -
  have h: "(1::nat) \<le> 3" by simp
  show ?thesis
    using safeEvaluate_default_unreachable [OF h,
            where evaluate = "scriptedPage (\<lambda>k. if k < 1 then Inl (Error (js ''navigation'')) else Inr (7::nat))"
              and d = 0 and d' = 1 and w = "\<lparr>now = 0, events = [], page = 0\<rparr>", THEN conjunct1] h
    by simp
qed


subsection \<open>Load-quiescence wait\<close>

declare waitForPageLoad_loop.simps [simp del]

lemma waitForPageLoad_loop_outcome:
  "(\<forall>e. fst (waitForPageLoad_loop b timeout startTime w) = Inl e \<longrightarrow>
        \<not> isNavigating e \<and> (\<exists>p p1. rejects b p = (Some e, p1)))
   \<and> (fst (waitForPageLoad_loop b timeout startTime w) = Inr True \<longrightarrow>
        (\<exists>p p1. rejects b p = (None, p1) \<and> \<not> hasLoading (document b p1)))
   \<and> (fst (waitForPageLoad_loop b timeout startTime w) = Inr False \<longrightarrow>
        timeout \<le> now (snd (waitForPageLoad_loop b timeout startTime w)) - startTime)"
proof (induction b timeout startTime w rule: waitForPageLoad_loop.induct)
  case (1 b timeout startTime w)
  show ?case
  proof (cases "now w - startTime < timeout")
    case False
    then show ?thesis
      by (subst (1 2 3 4) waitForPageLoad_loop.simps) simp
  next
    case True
    obtain r p1 where rj: "rejects b (page w) = (r, p1)" by (cases "rejects b (page w)")
    show ?thesis
    proof (cases r)
      case None
      then have ev: "driver (page_evaluate b hasLoading) w
                       = (Inr (hasLoading (document b p1)), w\<lparr>page := p1\<rparr>)"
        using rj by (simp add: driver_def page_evaluate_def)
      show ?thesis
      proof (cases "hasLoading (document b p1)")
        case False
        then show ?thesis
          using True ev rj None
          by (subst (1 2 3 4) waitForPageLoad_loop.simps) auto
      next
        case loading: True
        have step: "waitForPageLoad_loop b timeout startTime w
                      = waitForPageLoad_loop b timeout startTime (sleep 500 (w\<lparr>page := p1\<rparr>))"
          using True ev loading by (subst waitForPageLoad_loop.simps) simp
        show ?thesis
          unfolding step
          using "1.IH"(2) [OF True ev [symmetric] refl] loading by simp
      qed
    next
      case (Some e)
      then have ev: "driver (page_evaluate b hasLoading) w = (Inl e, w\<lparr>page := p1\<rparr>)"
        using rj by (simp add: driver_def page_evaluate_def)
      show ?thesis
      proof (cases "isNavigating e")
        case False
        then show ?thesis
          using True ev rj Some
          by (subst (1 2 3 4) waitForPageLoad_loop.simps) auto
      next
        case nav: True
        have step: "waitForPageLoad_loop b timeout startTime w
                      = waitForPageLoad_loop b timeout startTime (sleep 1000 (w\<lparr>page := p1\<rparr>))"
          using True ev nav by (subst waitForPageLoad_loop.simps) simp
        show ?thesis
          unfolding step
          using "1.IH"(1) [OF True ev [symmetric] refl nav] by simp
      qed
    qed
  qed
qed

text \<open>
  The rounds of the loop, one at a time: an idle round hands over to the next one, and a
  round that is not idle, or that starts after the deadline, ends the call.
\<close>

lemma waitForPageLoad_loop_idle:
  assumes "now w - startTime < timeout" and "idle b w"
  shows "waitForPageLoad_loop b timeout startTime w
           = waitForPageLoad_loop b timeout startTime (afterIdle b w)"
  using assms
  by (subst waitForPageLoad_loop.simps)
     (auto simp: idle_def afterIdle_def driver_def page_evaluate_def split: prod.splits option.splits)

lemma waitForPageLoad_loop_skips:
  "(\<forall>i<n. now ((afterIdle b ^^ i) w) - startTime < timeout \<and> idle b ((afterIdle b ^^ i) w))
     \<Longrightarrow> waitForPageLoad_loop b timeout startTime w
           = waitForPageLoad_loop b timeout startTime ((afterIdle b ^^ n) w)"
proof (induction n arbitrary: w)
  case 0
  show ?case by simp
next
  case (Suc n)
  have first: "now w - startTime < timeout \<and> idle b w"
    using Suc.prems [rule_format, of 0] by simp
  have rest: "\<forall>i<n. now ((afterIdle b ^^ i) (afterIdle b w)) - startTime < timeout
                  \<and> idle b ((afterIdle b ^^ i) (afterIdle b w))"
  proof (intro allI impI)
    fix i
    assume "i < n"
    then show "now ((afterIdle b ^^ i) (afterIdle b w)) - startTime < timeout
                  \<and> idle b ((afterIdle b ^^ i) (afterIdle b w))"
      using Suc.prems [rule_format, of "Suc i"] by (simp add: funpow_swap1)
  qed
  have "waitForPageLoad_loop b timeout startTime w
          = waitForPageLoad_loop b timeout startTime (afterIdle b w)"
    using first by (intro waitForPageLoad_loop_idle) simp_all
  also have "\<dots> = waitForPageLoad_loop b timeout startTime ((afterIdle b ^^ n) (afterIdle b w))"
    by (rule Suc.IH [OF rest])
  finally show ?case by (simp add: funpow_swap1)
qed

lemma waitForPageLoad_loop_quiet:
  assumes "now w - startTime < timeout" and "rejects b (page w) = (None, p1)"
    and "\<not> hasLoading (document b p1)"
  shows "waitForPageLoad_loop b timeout startTime w = (Inr True, w\<lparr>page := p1\<rparr>)"
  using assms
  by (subst waitForPageLoad_loop.simps) (simp add: driver_def page_evaluate_def)

lemma waitForPageLoad_loop_rethrows:
  assumes "now w - startTime < timeout" and "rejects b (page w) = (Some e, p1)"
    and "\<not> isNavigating e"
  shows "waitForPageLoad_loop b timeout startTime w = (Inl e, w\<lparr>page := p1\<rparr>)"
  using assms
  by (subst waitForPageLoad_loop.simps) (simp add: driver_def page_evaluate_def)

lemma waitForPageLoad_loop_late:
  assumes "timeout \<le> now w - startTime"
  shows "waitForPageLoad_loop b timeout startTime w = (Inr False, w)"
  using assms
  by (subst waitForPageLoad_loop.simps) simp

lemma afterIdle_clock: "now w + 500 * n \<le> now ((afterIdle b ^^ n) w)"
proof (induction n)
  case 0
  show ?case by simp
next
  case (Suc n)
  have "now v + 500 \<le> now (afterIdle b v)" for v
    by (simp add: afterIdle_def sleep_def split: prod.splits option.splits)
  from this [of "(afterIdle b ^^ n) w"] Suc show ?case by simp
qed

lemma waitForPageLoad_rounds:
  "\<exists>n. (\<forall>i<n. now ((afterIdle b ^^ i) w) - startTime < timeout \<and> idle b ((afterIdle b ^^ i) w))
       \<and> (timeout \<le> now ((afterIdle b ^^ n) w) - startTime \<or> \<not> idle b ((afterIdle b ^^ n) w))"
proof -
  let ?stops = "\<lambda>n. \<not> (now ((afterIdle b ^^ n) w) - startTime < timeout \<and> idle b ((afterIdle b ^^ n) w))"
  have "timeout \<le> now ((afterIdle b ^^ (startTime + timeout)) w) - startTime"
    using afterIdle_clock [of w "startTime + timeout" b] by simp
  then have "?stops (startTime + timeout)" by simp
  then have "\<exists>n. ?stops n" by blast
  then obtain n where "?stops n" "\<forall>m<n. \<not> ?stops m"
    using exists_least_iff [of ?stops] by blast
  then show ?thesis by (intro exI [of _ n]) auto
qed

text \<open>
  C8 as stated fails: when \<open>page.evaluate\<close> rejects with "Target closed", which the
  \<open>catch\<close> of \<open>waitForPageLoad\<close> does not count as a navigation, the method rethrows
  it to its caller.
\<close>

theorem waitForPageLoad_raises:
  "\<not> isNavigating (Error (js ''Target closed''))
   \<and> fst (waitForPageLoad (staticBrowser (Some (Error (js ''Target closed''))) emptyDocument [])
            30000 world0)
       = Inl (Error (js ''Target closed''))"
  by (simp add: waitForPageLoad_def waitForPageLoad_loop.simps staticBrowser_def world0_def
        driver_def page_evaluate_def isNavigating_def js_def)

text \<open>
  C8, amended. Call a round of the loop idle when its poll sees a visible loading
  indicator or is rejected with a message containing "Execution context was destroyed"
  or "navigation"; round \<open>n\<close> starts in \<open>(afterIdle b ^^ n) w\<close>. For every timeout
  and every page behaviour, when the rounds before round \<open>n\<close> were idle and started
  before the deadline: if round \<open>n\<close> starts before the deadline and its poll finds no
  loading indicator, \<open>waitForPageLoad\<close> returns \<open>true\<close>; if it starts before the
  deadline and its poll is rejected with any other error (for example "Target closed"),
  that error is rethrown to the caller; if it starts when \<open>timeout\<close> milliseconds or
  more have passed, \<open>waitForPageLoad\<close> returns \<open>false\<close>. Every call ends in one of
  these three ways, after finitely many rounds. Read from the outcome: what is thrown is a
  rejection of \<open>page.evaluate\<close> that is not navigation-class, \<open>true\<close> means that a
  poll found no indicator, \<open>false\<close> that the timeout has passed, and a page that only
  ever rejects with navigation-class errors gets a boolean.
\<close>

theorem waitForPageLoad_outcome:
  fixes b :: "'p browser" and w :: "'p world"
  shows
    "(\<forall>n p1. (\<forall>i<n. now ((afterIdle b ^^ i) w) - now w < timeout \<and> idle b ((afterIdle b ^^ i) w))
          \<and> now ((afterIdle b ^^ n) w) - now w < timeout
          \<and> rejects b (page ((afterIdle b ^^ n) w)) = (None, p1) \<and> \<not> hasLoading (document b p1) \<longrightarrow>
        waitForPageLoad b timeout w = (Inr True, ((afterIdle b ^^ n) w)\<lparr>page := p1\<rparr>))
     \<and> (\<forall>n e p1. (\<forall>i<n. now ((afterIdle b ^^ i) w) - now w < timeout \<and> idle b ((afterIdle b ^^ i) w))
          \<and> now ((afterIdle b ^^ n) w) - now w < timeout
          \<and> rejects b (page ((afterIdle b ^^ n) w)) = (Some e, p1) \<and> \<not> isNavigating e \<longrightarrow>
        waitForPageLoad b timeout w = (Inl e, ((afterIdle b ^^ n) w)\<lparr>page := p1\<rparr>))
     \<and> (\<forall>n. (\<forall>i<n. now ((afterIdle b ^^ i) w) - now w < timeout \<and> idle b ((afterIdle b ^^ i) w))
          \<and> timeout \<le> now ((afterIdle b ^^ n) w) - now w \<longrightarrow>
        waitForPageLoad b timeout w = (Inr False, (afterIdle b ^^ n) w))
     \<and> (\<exists>n. (\<forall>i<n. now ((afterIdle b ^^ i) w) - now w < timeout \<and> idle b ((afterIdle b ^^ i) w))
          \<and> (timeout \<le> now ((afterIdle b ^^ n) w) - now w \<or> \<not> idle b ((afterIdle b ^^ n) w)))
     \<and> (\<forall>e. fst (waitForPageLoad b timeout w) = Inl e \<longrightarrow>
          \<not> isNavigating e \<and> (\<exists>p p1. rejects b p = (Some e, p1)))
     \<and> (fst (waitForPageLoad b timeout w) = Inr True \<longrightarrow>
          (\<exists>p p1. rejects b p = (None, p1) \<and> \<not> hasLoading (document b p1)))
     \<and> (fst (waitForPageLoad b timeout w) = Inr False \<longrightarrow>
          timeout \<le> now (snd (waitForPageLoad b timeout w)) - now w)
     \<and> ((\<forall>p e p1. rejects b p = (Some e, p1) \<longrightarrow> isNavigating e) \<longrightarrow>
          (\<exists>v. fst (waitForPageLoad b timeout w) = Inr v))"
proof -
  have quiet: "waitForPageLoad b timeout w = (Inr True, ((afterIdle b ^^ n) w)\<lparr>page := p1\<rparr>)"
    if "\<forall>i<n. now ((afterIdle b ^^ i) w) - now w < timeout \<and> idle b ((afterIdle b ^^ i) w)"
      and "now ((afterIdle b ^^ n) w) - now w < timeout"
      and "rejects b (page ((afterIdle b ^^ n) w)) = (None, p1)" and "\<not> hasLoading (document b p1)"
    for n p1
    unfolding waitForPageLoad_def waitForPageLoad_loop_skips [OF that(1)]
    using that(2-4) by (rule waitForPageLoad_loop_quiet)
  have rethrows: "waitForPageLoad b timeout w = (Inl e, ((afterIdle b ^^ n) w)\<lparr>page := p1\<rparr>)"
    if "\<forall>i<n. now ((afterIdle b ^^ i) w) - now w < timeout \<and> idle b ((afterIdle b ^^ i) w)"
      and "now ((afterIdle b ^^ n) w) - now w < timeout"
      and "rejects b (page ((afterIdle b ^^ n) w)) = (Some e, p1)" and "\<not> isNavigating e"
    for n e p1
    unfolding waitForPageLoad_def waitForPageLoad_loop_skips [OF that(1)]
    using that(2-4) by (rule waitForPageLoad_loop_rethrows)
  have late: "waitForPageLoad b timeout w = (Inr False, (afterIdle b ^^ n) w)"
    if "\<forall>i<n. now ((afterIdle b ^^ i) w) - now w < timeout \<and> idle b ((afterIdle b ^^ i) w)"
      and "timeout \<le> now ((afterIdle b ^^ n) w) - now w"
    for n
    unfolding waitForPageLoad_def waitForPageLoad_loop_skips [OF that(1)]
    using that(2) by (rule waitForPageLoad_loop_late)
  have main: "(\<forall>e. fst (waitForPageLoad b timeout w) = Inl e \<longrightarrow>
        \<not> isNavigating e \<and> (\<exists>p p1. rejects b p = (Some e, p1)))
   \<and> (fst (waitForPageLoad b timeout w) = Inr True \<longrightarrow>
        (\<exists>p p1. rejects b p = (None, p1) \<and> \<not> hasLoading (document b p1)))
   \<and> (fst (waitForPageLoad b timeout w) = Inr False \<longrightarrow>
        timeout \<le> now (snd (waitForPageLoad b timeout w)) - now w)"
    unfolding waitForPageLoad_def by (rule waitForPageLoad_loop_outcome)
  have calm: "\<exists>v. fst (waitForPageLoad b timeout w) = Inr v"
    if nav: "\<forall>p e p1. rejects b p = (Some e, p1) \<longrightarrow> isNavigating e"
  proof (cases "fst (waitForPageLoad b timeout w)")
    case (Inl e)
    with main nav show ?thesis by blast
  next
    case (Inr v)
    then show ?thesis by blast
  qed
  show ?thesis
    using quiet rethrows late waitForPageLoad_rounds [of b w "now w" timeout] main calm
    by (intro conjI allI impI) blast+
qed

theorem waitForPageLoad_outcome_witness:
  "waitForPageLoad
     (pollingBrowser (\<lambda>k. if k = 0 then Some (Error (js ''Execution context was destroyed''))
                           else if k = 2 then Some (Error (js ''Target closed'')) else None)
        (\<lambda>k. spinnerDocument))
     30000 \<lparr>now = 0, events = [], page = 0\<rparr>
   = (Inl (Error (js ''Target closed'')), \<lparr>now = 1500, events = [], page = 3\<rparr>)
   \<and> waitForPageLoad (staticBrowser None emptyDocument []) 30000 world0 = (Inr True, world0)
   \<and> waitForPageLoad (staticBrowser None spinnerDocument []) 1000 world0
       = (Inr False, \<lparr>now = 1000, events = [], page = ()\<rparr>)"
proof -
  let ?b = "pollingBrowser (\<lambda>k. if k = 0 then Some (Error (js ''Execution context was destroyed''))
                           else if k = 2 then Some (Error (js ''Target closed'')) else None)
              (\<lambda>k. spinnerDocument)"
  let ?w = "\<lparr>now = 0, events = [], page = 0::nat\<rparr>"
  have spinning: "hasLoading spinnerDocument"
    by (simp add: hasLoading_def loadingSelectors_def spinnerDocument_def querySelector_def js_def)
  have calm: "\<not> hasLoading emptyDocument"
    by (simp add: hasLoading_def loadingSelectors_def emptyDocument_def querySelector_def)
  have nav: "isNavigating (Error (js ''Execution context was destroyed''))"
    and closed: "\<not> isNavigating (Error (js ''Target closed''))"
    by (simp_all add: isNavigating_def js_def)
  have r0: "(afterIdle ?b ^^ 0) ?w = ?w" by simp
  have r1: "(afterIdle ?b ^^ 1) ?w = \<lparr>now = 1000, events = [], page = 1\<rparr>"
    by (simp add: afterIdle_def pollingBrowser_def sleep_def)
  have r2: "(afterIdle ?b ^^ 2) ?w = \<lparr>now = 1500, events = [], page = 2\<rparr>"
    by (simp add: numeral_2_eq_2 afterIdle_def pollingBrowser_def sleep_def)
  have i0: "idle ?b ?w" using nav by (simp add: idle_def pollingBrowser_def)
  have i1: "idle ?b \<lparr>now = 1000, events = [], page = 1\<rparr>"
    using spinning by (simp add: idle_def pollingBrowser_def)
  have idles: "\<forall>i<2. now ((afterIdle ?b ^^ i) ?w) - now ?w < 30000 \<and> idle ?b ((afterIdle ?b ^^ i) ?w)"
  proof (intro allI impI)
    fix i :: nat
    assume "i < 2"
    then consider "i = 0" | "i = 1" by linarith
    then show "now ((afterIdle ?b ^^ i) ?w) - now ?w < 30000 \<and> idle ?b ((afterIdle ?b ^^ i) ?w)"
    proof cases
      case 1
      then show ?thesis using i0 by simp
    next
      case 2
      then show ?thesis using i1 r1 by simp
    qed
  qed
  have "now ((afterIdle ?b ^^ 2) ?w) - now ?w < 30000" unfolding r2 by simp
  moreover have "rejects ?b (page ((afterIdle ?b ^^ 2) ?w)) = (Some (Error (js ''Target closed'')), 3)"
    unfolding r2 by (simp add: pollingBrowser_def)
  ultimately have thrown: "(\<forall>i<2. now ((afterIdle ?b ^^ i) ?w) - now ?w < 30000 \<and> idle ?b ((afterIdle ?b ^^ i) ?w))
          \<and> now ((afterIdle ?b ^^ 2) ?w) - now ?w < 30000
          \<and> rejects ?b (page ((afterIdle ?b ^^ 2) ?w)) = (Some (Error (js ''Target closed'')), 3)
          \<and> \<not> isNavigating (Error (js ''Target closed''))"
    using idles closed by blast
  let ?s = "staticBrowser None emptyDocument []"
  have returned: "(\<forall>i<0. now ((afterIdle ?s ^^ i) world0) - now world0 < 30000 \<and> idle ?s ((afterIdle ?s ^^ i) world0))
          \<and> now ((afterIdle ?s ^^ 0) world0) - now world0 < 30000
          \<and> rejects ?s (page ((afterIdle ?s ^^ 0) world0)) = (None, ())
          \<and> \<not> hasLoading (document ?s ())"
    using calm by (simp add: staticBrowser_def world0_def)
  let ?t = "staticBrowser None spinnerDocument []"
  have t1: "(afterIdle ?t ^^ 1) world0 = \<lparr>now = 500, events = [], page = ()\<rparr>"
    by (simp add: afterIdle_def staticBrowser_def sleep_def world0_def)
  have t2: "(afterIdle ?t ^^ 2) world0 = \<lparr>now = 1000, events = [], page = ()\<rparr>"
    by (simp add: numeral_2_eq_2 afterIdle_def staticBrowser_def sleep_def world0_def)
  have ti: "idle ?t v" for v
    using spinning by (simp add: idle_def staticBrowser_def)
  have spins: "\<forall>i<2. now ((afterIdle ?t ^^ i) world0) - now world0 < 1000 \<and> idle ?t ((afterIdle ?t ^^ i) world0)"
  proof (intro allI impI)
    fix i :: nat
    assume "i < 2"
    then consider "i = 0" | "i = 1" by linarith
    then show "now ((afterIdle ?t ^^ i) world0) - now world0 < 1000 \<and> idle ?t ((afterIdle ?t ^^ i) world0)"
    proof cases
      case 1
      then show ?thesis using ti by (simp add: world0_def)
    next
      case 2
      then show ?thesis using ti t1 by (simp add: world0_def)
    qed
  qed
  have "1000 \<le> now ((afterIdle ?t ^^ 2) world0) - now world0"
    unfolding t2 by (simp add: world0_def)
  then have timed: "(\<forall>i<2. now ((afterIdle ?t ^^ i) world0) - now world0 < 1000 \<and> idle ?t ((afterIdle ?t ^^ i) world0))
          \<and> 1000 \<le> now ((afterIdle ?t ^^ 2) world0) - now world0"
    using spins by blast
  show ?thesis
    using waitForPageLoad_outcome [where b = ?b and w = ?w and timeout = 30000,
            THEN conjunct2, THEN conjunct1, rule_format, OF thrown]
          waitForPageLoad_outcome [where b = ?s and w = world0 and timeout = 30000,
            THEN conjunct1, rule_format, OF returned]
          waitForPageLoad_outcome [where b = ?t and w = world0 and timeout = 1000,
            THEN conjunct2, THEN conjunct2, THEN conjunct1, rule_format, OF timed]
          r2 t2
    by (simp add: world0_def)
qed

subsection \<open>Events of a run\<close>

lemma appended_refl: "appended Q w w"
  by (simp add: appended_def)

lemma appended_trans: "appended Q w w1 \<Longrightarrow> appended Q w1 w2 \<Longrightarrow> appended Q w w2"
  by (auto simp: appended_def)

lemma appended_logger: "Q e \<Longrightarrow> appended Q w (logger e w)"
  by (simp add: appended_def logger_def)

lemma appended_sleep: "appended Q w (sleep ms w)"
  by (simp add: appended_def sleep_def)

lemma appended_driver: "appended Q w (snd (driver call w))"
  by (simp add: appended_def driver_def split: prod.splits)

lemma appended_withRetry_loop:
  assumes fn: "\<And>w. appended Q w (snd (fn w))"
    and warn: "\<And>a d. Q (RetryWarn stepName a retries d)"
    and exhausted: "Q (RetryExhausted stepName retries)"
  shows "appended Q w (snd (withRetry_loop fn stepName retries delay i lastError w))"
  using assms
proof (induction fn stepName retries delay i lastError w rule: withRetry_loop.induct)
  case (1 fn stepName retries delay i lastError w)
  show ?case
  proof (cases "i < retries")
    case False
    then show ?thesis
      using "1.prems"(3)
      by (subst withRetry_loop.simps) (simp add: appended_logger)
  next
    case True
    obtain r w1 where f: "fn w = (r, w1)" by (cases "fn w")
    then have a1: "appended Q w w1" using "1.prems"(1) [of w] by simp
    show ?thesis
    proof (cases r)
      case (Inr v)
      then show ?thesis
        using True f a1 by (subst withRetry_loop.simps) simp
    next
      case (Inl e)
      let ?w = "if i + 1 < retries
                then sleep delay (logger (RetryWarn stepName (i + 1) retries (message e)) w1)
                else w1"
      have "appended Q w1 (sleep delay (logger (RetryWarn stepName (i + 1) retries (message e)) w1))"
        by (rule appended_trans [OF appended_logger appended_sleep]) (rule "1.prems"(2))
      then have a2: "appended Q w1 ?w"
        by (simp add: appended_refl)
      have ih: "appended Q ?w (snd (withRetry_loop fn stepName retries delay (i + 1) (Some e) ?w))"
        using "1.IH" [OF True f [symmetric] Inl] "1.prems" by blast
      have step: "withRetry_loop fn stepName retries delay i lastError w
                    = withRetry_loop fn stepName retries delay (i + 1) (Some e) ?w"
        using True f Inl by (subst withRetry_loop.simps) simp
      show ?thesis
        unfolding step using a1 a2 ih appended_trans by blast
    qed
  qed
qed

lemma appended_safeEvaluate_loop:
  assumes "\<And>a. Q (SafeEvaluateRetry a retries)"
  shows "appended Q w (snd (safeEvaluate_loop evaluate d retries i w))"
  using assms
proof (induction evaluate d retries i w rule: safeEvaluate_loop.induct)
  case (1 evaluate d retries i w)
  show ?case
  proof (cases "i < retries")
    case False
    then show ?thesis
      by (subst safeEvaluate_loop.simps) (simp add: appended_refl)
  next
    case True
    obtain r w1 where f: "driver evaluate w = (r, w1)" by (cases "driver evaluate w")
    then have a1: "appended Q w w1" using appended_driver [of Q w evaluate] by simp
    show ?thesis
    proof (cases r)
      case (Inr v)
      then show ?thesis
        using True f a1 by (subst safeEvaluate_loop.simps) simp
    next
      case (Inl e)
      show ?thesis
      proof (cases "isNavigationError e \<and> i + 1 < retries")
        case False
        then show ?thesis
          using True f Inl a1 by (subst safeEvaluate_loop.simps) auto
      next
        case nav: True
        let ?w = "sleep 2000 (logger (SafeEvaluateRetry (i + 2) retries) w1)"
        have a2: "appended Q w1 ?w"
          by (rule appended_trans [OF appended_logger appended_sleep]) (rule "1.prems")
        have ih: "appended Q ?w (snd (safeEvaluate_loop evaluate d retries (i + 1) ?w))"
          using "1.IH" [OF True f [symmetric] Inl nav] "1.prems" by blast
        have step: "safeEvaluate_loop evaluate d retries i w
                      = safeEvaluate_loop evaluate d retries (i + 1) ?w"
          using True f Inl nav by (subst safeEvaluate_loop.simps) simp
        show ?thesis
          unfolding step using a1 a2 ih appended_trans by blast
      qed
    qed
  qed
qed

lemma appended_andThen:
  assumes "\<And>w. appended Q w (snd (m w))" and "\<And>v w. appended Q w (snd (f v w))"
  shows "appended Q w (snd (andThen m f w))"
proof (cases "m w")
  case (Pair r w1)
  then have a1: "appended Q w w1" using assms(1) [of w] by simp
  show ?thesis
  proof (cases r)
    case (Inl e)
    then show ?thesis using Pair a1 by (simp add: andThen_def)
  next
    case (Inr v)
    then have "andThen m f w = f v w1" using Pair by (simp add: andThen_def)
    then show ?thesis using a1 assms(2) [of w1 v] appended_trans by metis
  qed
qed

lemma appended_raising:
  assumes "appended Q w (snd (m w))"
  shows "appended Q w (snd (raising m w))"
  using assms by (auto simp: raising_def split: prod.splits sum.splits)

lemma appended_stageStep:
  assumes "Q (Invoked st)" and "\<And>l a n d. Q (RetryWarn l a n d)" and "\<And>l n. Q (RetryExhausted l n)"
  shows "appended Q w (snd (stageStep stages st label w))"
  unfolding stageStep_def withRetry_def
proof (rule appended_withRetry_loop)
  fix w :: "'a world"
  show "appended Q w (snd (driver (stages st) (logger (Invoked st) w)))"
    by (rule appended_trans [OF appended_logger appended_driver]) (rule assms(1))
qed (use assms in auto)


lemma appended_register_upto_issueCheck:
  "appended (\<lambda>ev. ev \<noteq> Invoked EnterUsername) w
     (snd (register_upto_issueCheck stages getVerificationCode email password w))"
proof -
  let ?Q = "\<lambda>ev. ev \<noteq> Invoked EnterUsername"
  have st: "\<And>st label w. st \<noteq> EnterUsername \<Longrightarrow>
              appended ?Q (w :: 'a world) (snd (stageStep stages st label w))"
    by (rule appended_stageStep) simp_all
  have code: "\<And>w :: 'a world. appended ?Q w (snd (raising (driver getVerificationCode) w))"
    by (rule appended_raising) (rule appended_driver)
  have pause: "\<And>w :: 'a world. appended ?Q w (snd (Inr () :: error option + unit, sleep 2000 w))"
    by (simp add: appended_sleep)
  show ?thesis
    unfolding register_upto_issueCheck_def
    apply (rule appended_andThen, rule st, simp)
    apply (rule appended_andThen, rule st, simp)
    apply (rule appended_andThen, rule st, simp)
    apply (rule appended_andThen, rule st, simp)
    apply (rule appended_andThen, rule code)
    apply (rule appended_andThen, rule st, simp)
    apply (rule appended_andThen, rule st, simp)
    apply (rule pause)
    done
qed


lemma appended_checkForSignInIssue:
  "appended (\<lambda>ev. ev \<noteq> Invoked EnterUsername) w (snd (checkForSignInIssue b w))"
  unfolding checkForSignInIssue_def safeEvaluate_def
  by (rule appended_safeEvaluate_loop) simp

text \<open>
  C6. Take any run of \<open>register\<close> in which steps 1 to 6 succeed and the inspection
  after the profile step, \<open>checkForSignInIssue\<close>, returns \<open>true\<close>. Then \<open>register\<close>
  throws (the "We ran into an issue" error, or the rejection of the diagnostic screenshot
  taken just before it), and among the events of the run there is no invocation of
  \<open>enterUsername\<close>.
\<close>

theorem register_aborts_on_signInIssue:
  assumes upto: "register_upto_issueCheck stages getVerificationCode email password w = (Inr (), w1)"
    and issue: "fst (checkForSignInIssue b w1) = Inr True"
  shows "\<exists>e new. fst (register b stages getVerificationCode email password w) = Inl e
           \<and> (e = signInIssueError
                \<or> (\<exists>p p1. screenshot b (js ''debug-signin-issue.png'') p = (Inl e, p1)))
           \<and> events (snd (register b stages getVerificationCode email password w)) = events w @ new
           \<and> Invoked EnterUsername \<notin> set new"
proof -
  let ?Q = "\<lambda>ev. ev \<noteq> Invoked EnterUsername"
  obtain w2 where chk: "checkForSignInIssue b w1 = (Inr True, w2)"
    using issue by (cases "checkForSignInIssue b w1") simp
  define w3 where "w3 = logger SignInIssueDetected w2"
  obtain r w4 where shot: "driver (screenshot b (js ''debug-signin-issue.png'')) w3 = (r, w4)"
    by (cases "driver (screenshot b (js ''debug-signin-issue.png'')) w3")
  define e where "e = (case r of Inl e' \<Rightarrow> e' | Inr _ \<Rightarrow> signInIssueError)"
  define w5 where "w5 = snd (driver (screenshot b (js ''debug-register-error.png''))
                              (logger (RegisterError (message e)) w4))"
  have body: "register_from_issueCheck b stages w1 = (Inl (Some e), w4)"
    using chk shot
    by (cases r) (simp_all add: register_from_issueCheck_def andThen_def raising_def w3_def e_def)
  have run: "register b stages getVerificationCode email password w = (Inl e, w5)"
    using upto body by (simp add: register_def andThen_def w5_def)
  have cause: "e = signInIssueError
                \<or> (\<exists>p p1. screenshot b (js ''debug-signin-issue.png'') p = (Inl e, p1))"
  proof (cases r)
    case (Inl e')
    then have "screenshot b (js ''debug-signin-issue.png'') (page w3) = (Inl e, snd (screenshot b (js ''debug-signin-issue.png'') (page w3)))"
      using shot by (auto simp: driver_def e_def split: prod.splits)
    then show ?thesis by blast
  next
    case (Inr u)
    then show ?thesis by (simp add: e_def)
  qed
  have a1: "appended ?Q w w1"
    using appended_register_upto_issueCheck [of w stages getVerificationCode email password] upto
    by simp
  have a2: "appended ?Q w1 w2"
    using appended_checkForSignInIssue [of w1 b] chk by simp
  have a3: "appended ?Q w2 w3"
    unfolding w3_def by (rule appended_logger) simp
  have a4: "appended ?Q w3 w4"
    using appended_driver [of ?Q w3 "screenshot b (js ''debug-signin-issue.png'')"] shot by simp
  have a5: "appended ?Q w4 w5"
    unfolding w5_def by (rule appended_trans [OF appended_logger appended_driver]) simp
  have "appended ?Q w w5"
    using a1 a2 a3 a4 a5 appended_trans by blast
  then obtain new where "events w5 = events w @ new" "list_all ?Q new"
    by (auto simp: appended_def)
  then have "events w5 = events w @ new \<and> Invoked EnterUsername \<notin> set new"
    by (auto simp: list_all_iff)
  then show ?thesis using run cause by auto
qed


theorem register_aborts_on_signInIssue_witness:
  "\<exists>e new. fst (register (staticBrowser None bannerDocument (js ''https://auth.openai.com/about-you''))
                   acceptingStages (fixedCode (js ''482913'')) (js ''a@b.co'') (js ''pw'') world0) = Inl e
       \<and> (e = signInIssueError
            \<or> (\<exists>p p1. screenshot (staticBrowser None bannerDocument (js ''https://auth.openai.com/about-you''))
                         (js ''debug-signin-issue.png'') p = (Inl e, p1)))
       \<and> events (snd (register (staticBrowser None bannerDocument (js ''https://auth.openai.com/about-you''))
                   acceptingStages (fixedCode (js ''482913'')) (js ''a@b.co'') (js ''pw'') world0)) = events world0 @ new
       \<and> Invoked EnterUsername \<notin> set new"
proof (rule register_aborts_on_signInIssue)
  show "register_upto_issueCheck acceptingStages (fixedCode (js ''482913'')) (js ''a@b.co'') (js ''pw'') world0
          = (Inr (), \<lparr>now = 2000,
                events = [Invoked ClickLogin, Invoked ClickSignUp, Invoked (EnterEmail (js ''a@b.co'')),
                          Invoked (EnterPassword (js ''pw'')), Invoked (EnterVerificationCode (js ''482913'')),
                          Invoked EnterNameAndBirthday],
                page = ()\<rparr>)"
    by (simp add: register_upto_issueCheck_def andThen_def stageStep_def withRetry_def
          withRetry_loop.simps driver_def logger_def sleep_def acceptingStages_def fixedCode_def
          raising_def world0_def)
  show "fst (checkForSignInIssue (staticBrowser None bannerDocument (js ''https://auth.openai.com/about-you''))
          \<lparr>now = 2000,
                events = [Invoked ClickLogin, Invoked ClickSignUp, Invoked (EnterEmail (js ''a@b.co'')),
                          Invoked (EnterPassword (js ''pw'')), Invoked (EnterVerificationCode (js ''482913'')),
                          Invoked EnterNameAndBirthday],
                page = ()\<rparr>) = Inr True"
    by (simp add: checkForSignInIssue_def safeEvaluate_def safeEvaluate_loop.simps driver_def
          page_evaluate_def staticBrowser_def signInIssueScript_def bannerDocument_def js_def)
qed

subsection \<open>Completion check\<close>

lemma errorText_loop_nonempty: "errorText_loop els = Some t \<Longrightarrow> t \<noteq> []"
  by (induction els) (auto split: if_splits)

lemma errorText_loop_filter:
  "errorText_loop els =
     (case filter (\<lambda>el. js_trim (textContent el) \<noteq> []) els of
        [] \<Rightarrow> None
      | el # _ \<Rightarrow> Some (js_trim (textContent el)))"
  by (induction els) auto

lemma safeEvaluate_value_from_script:
  assumes "fst (safeEvaluate (page_evaluate b script) d 3 w) = Inr v"
  shows "\<exists>p. v = script (document b p)"
proof -
  obtain w' where "safeEvaluate (page_evaluate b script) d 3 w = (Inr v, w')"
    using assms by (cases "safeEvaluate (page_evaluate b script) d 3 w") simp
  then obtain p where "page_evaluate b script p = (Inr v, page w')"
    using safeEvaluate_loop_default_unused [of 0 3 "page_evaluate b script" d w d]
    unfolding safeEvaluate_def by auto
  then show ?thesis
    by (auto simp: page_evaluate_def split: prod.splits option.splits)
qed

text \<open>
  When the stages before it succeed and no failure banner is found, what \<open>register\<close>
  returns is what the completion check returns.
\<close>

lemma register_returns_completion:
  assumes "register_upto_issueCheck stages getVerificationCode email password w = (Inr (), w1)"
    and "checkForSignInIssue b w1 = (Inr False, w2)"
    and "stageStep stages EnterUsername label_enterUsername w2 = (Inr (), w3)"
    and "completion b w3 = (Inr registered, w4)"
  shows "register b stages getVerificationCode email password w = (Inr registered, w4)"
  using assms
  by (simp add: register_def andThen_def register_from_issueCheck_def raising_def)

text \<open>
  C5 as stated fails: a URL that is neither on the auth domain nor on a target domain
  gets a classification of its own, "status uncertain", outside the three of the claim.
\<close>

theorem completionCheck_uncertain:
  "\<not> js_includes (js ''https://example.org/'') (js ''auth.openai.com'')
   \<and> \<not> js_includes (js ''https://example.org/'') (js ''sora.com'')
   \<and> \<not> js_includes (js ''https://example.org/'') (js ''chat.openai.com'')
   \<and> \<not> js_includes (js ''https://example.org/'') (js ''chatgpt.com'')
   \<and> completionCheck (staticBrowser None emptyDocument (js ''https://example.org/'')) world0
       = (Inr False,
          \<lparr>now = 0,
           events = [CurrentPage (js ''https://example.org/''), StatusUncertain (js ''https://example.org/'')],
           page = ()\<rparr>)"
  by (simp add: completionCheck_def staticBrowser_def world0_def logger_def js_def Let_def)

text \<open>
  C5, amended. The completion check of \<open>register\<close> classifies \<open>page.url()\<close> by
  substring tests, in this order. (a) The URL contains "auth.openai.com" and the guarded
  inspection returns the trimmed text of the first element matching the error selector
  whose trimmed text is non-empty (visible or not): failure, the text is logged.
  (b) The URL contains "auth.openai.com" and the inspection returns \<open>null\<close>: failure.
  If the inspection throws, so does the check. (c) Otherwise, the URL contains
  "sora.com", "chat.openai.com" or "chatgpt.com": success. (d) Any other URL: failure,
  logged as status uncertain.
\<close>

theorem completionCheck_classification:
  fixes b :: "'p browser" and w :: "'p world"
  defines "url \<equiv> pageUrl b (page w)"
  defines "onAuth \<equiv> js_includes url (js ''auth.openai.com'')"
  defines "onTarget \<equiv> js_includes url (js ''sora.com'') \<or> js_includes url (js ''chat.openai.com'')
                        \<or> js_includes url (js ''chatgpt.com'')"
  defines "inspected \<equiv> safeEvaluate (page_evaluate b errorTextScript) None 3 (logger (CurrentPage url) w)"
  shows
    "(\<forall>t. onAuth \<and> fst inspected = Inr (Some t) \<longrightarrow>
         (\<exists>p. errorTextScript (document b p) = Some t) \<and> t \<noteq> []
         \<and> completionCheck b w = (Inr False, logger (PageShowsError t) (snd inspected)))
     \<and> (onAuth \<and> fst inspected = Inr None \<longrightarrow>
         (\<exists>p. errorTextScript (document b p) = None)
         \<and> completionCheck b w = (Inr False, logger (StillOnAuthPage url) (snd inspected)))
     \<and> (\<forall>e. onAuth \<and> fst inspected = Inl e \<longrightarrow>
         completionCheck b w = (Inl (Some e), snd inspected))
     \<and> (\<not> onAuth \<and> onTarget \<longrightarrow>
         completionCheck b w = (Inr True, logger RegisterSucceeded (logger (CurrentPage url) w)))
     \<and> (\<not> onAuth \<and> \<not> onTarget \<longrightarrow>
         completionCheck b w = (Inr False, logger (StatusUncertain url) (logger (CurrentPage url) w)))"
proof (intro conjI allI impI)
  fix t
  assume a: "onAuth \<and> fst inspected = Inr (Some t)"
  then obtain p where p: "Some t = errorTextScript (document b p)"
    using safeEvaluate_value_from_script [of b errorTextScript None "logger (CurrentPage url) w" "Some t"]
    unfolding inspected_def by blast
  then show "\<exists>p. errorTextScript (document b p) = Some t" by metis
  show ne: "t \<noteq> []"
    using p errorText_loop_nonempty [of _ t] by (simp add: errorTextScript_def)
  show "completionCheck b w = (Inr False, logger (PageShowsError t) (snd inspected))"
    using a ne unfolding completionCheck_def inspected_def onAuth_def url_def
    by (cases "safeEvaluate (page_evaluate b errorTextScript) None 3
                 (logger (CurrentPage (pageUrl b (page w))) w)")
       (simp add: Let_def)
next
  assume a: "onAuth \<and> fst inspected = Inr None"
  then obtain p where p: "None = errorTextScript (document b p)"
    using safeEvaluate_value_from_script [of b errorTextScript None "logger (CurrentPage url) w" None]
    unfolding inspected_def by blast
  then show "\<exists>p. errorTextScript (document b p) = None" by metis
  show "completionCheck b w = (Inr False, logger (StillOnAuthPage url) (snd inspected))"
    using a unfolding completionCheck_def inspected_def onAuth_def url_def
    by (cases "safeEvaluate (page_evaluate b errorTextScript) None 3
                 (logger (CurrentPage (pageUrl b (page w))) w)")
       (simp add: Let_def)
next
  fix e
  assume a: "onAuth \<and> fst inspected = Inl e"
  then show "completionCheck b w = (Inl (Some e), snd inspected)"
    unfolding completionCheck_def inspected_def onAuth_def url_def
    by (cases "safeEvaluate (page_evaluate b errorTextScript) None 3
                 (logger (CurrentPage (pageUrl b (page w))) w)")
       (simp add: Let_def)
next
  assume "\<not> onAuth \<and> onTarget"
  then show "completionCheck b w = (Inr True, logger RegisterSucceeded (logger (CurrentPage url) w))"
    unfolding completionCheck_def onTarget_def onAuth_def url_def
    by (simp add: Let_def)
next
  assume "\<not> onAuth \<and> \<not> onTarget"
  then show "completionCheck b w = (Inr False, logger (StatusUncertain url) (logger (CurrentPage url) w))"
    unfolding completionCheck_def onTarget_def onAuth_def url_def
    by (simp add: Let_def)
qed

theorem completionCheck_classification_witness:
  "completionCheck (staticBrowser None emptyDocument (js ''https://sora.com/explore'')) world0
     = (Inr True, logger RegisterSucceeded (logger (CurrentPage (js ''https://sora.com/explore'')) world0))
   \<and> completionCheck (staticBrowser None hiddenErrorDocument (js ''https://auth.openai.com/u'')) world0
     = (Inr False, logger (PageShowsError (js ''Username taken''))
          (snd (safeEvaluate (page_evaluate (staticBrowser None hiddenErrorDocument (js ''https://auth.openai.com/u''))
                                errorTextScript) None 3
                  (logger (CurrentPage (js ''https://auth.openai.com/u'')) world0))))"
proof -
  have target: "pageUrl (staticBrowser None emptyDocument (js ''https://sora.com/explore'')) (page world0)
                  = js ''https://sora.com/explore''"
    and auth: "pageUrl (staticBrowser None hiddenErrorDocument (js ''https://auth.openai.com/u'')) (page world0)
                  = js ''https://auth.openai.com/u''"
    by (simp_all add: staticBrowser_def)
  have t1: "\<not> js_includes (js ''https://sora.com/explore'') (js ''auth.openai.com'')"
    and t2: "js_includes (js ''https://sora.com/explore'') (js ''sora.com'')"
    and t3: "js_includes (js ''https://auth.openai.com/u'') (js ''auth.openai.com'')"
    by (simp_all add: js_def)
  have t4: "fst (safeEvaluate (page_evaluate (staticBrowser None hiddenErrorDocument (js ''https://auth.openai.com/u''))
                                errorTextScript) None 3
                  (logger (CurrentPage (js ''https://auth.openai.com/u'')) world0))
              = Inr (Some (js ''Username taken''))"
    by (simp add: safeEvaluate_def safeEvaluate_loop.simps driver_def page_evaluate_def
          staticBrowser_def errorTextScript_def hiddenErrorDocument_def js_trim_def
          isWhiteSpace_def whiteSpace_def js_def)
  show ?thesis
    using completionCheck_classification
            [where b = "staticBrowser None emptyDocument (js ''https://sora.com/explore'')" and w = world0,
             THEN conjunct2, THEN conjunct2, THEN conjunct2, THEN conjunct1]
          completionCheck_classification
            [where b = "staticBrowser None hiddenErrorDocument (js ''https://auth.openai.com/u'')" and w = world0,
             THEN conjunct1, rule_format, of "js ''Username taken''"]
          target auth t1 t2 t3 t4
    by simp
qed


subsection \<open>Birthday generation\<close>

declare decimal.simps [simp del]

lemma floor_scaled_unit:
  fixes r :: real
  assumes "0 \<le> r" and "r < 1" and "0 < n"
  shows "0 \<le> \<lfloor>r * of_int n\<rfloor> \<and> \<lfloor>r * of_int n\<rfloor> \<le> n - 1"
proof -
  have "0 \<le> r * of_int n" using assms by simp
  then have lo: "0 \<le> \<lfloor>r * of_int n\<rfloor>" by simp
  have "r * of_int n < of_int n" using assms by simp
  then have "\<lfloor>r * of_int n\<rfloor> < n" by (simp add: floor_less_iff)
  with lo show ?thesis by simp
qed

text \<open>
  The components, for every current year and every three draws of \<open>Math.random()\<close>:
  the birth year lies 18 to 39 years before the current year, the month is in 1..12 and
  the day in 1..28; \<open>generateBirthday\<close> and the inline copy in
  \<open>enterNameAndBirthday\<close> compute the same three numbers, and the returned string is
  these numbers, month and day padded to two digits, in the order of the page's language.
\<close>

lemma generateBirthday_components:
  assumes "0 \<le> r1" "r1 < 1" "0 \<le> r2" "r2 < 1" "0 \<le> r3" "r3 < 1"
  shows "currentYear - 39 \<le> birthYear currentYear r1
         \<and> birthYear currentYear r1 \<le> currentYear - 18
         \<and> 1 \<le> birthMonth r2 \<and> birthMonth r2 \<le> 12
         \<and> 1 \<le> birthDay r3 \<and> birthDay r3 \<le> 28
         \<and> inlineBirthday currentYear r1 r2 r3 = (birthYear currentYear r1, birthMonth r2, birthDay r3)
         \<and> generateBirthday False currentYear r1 r2 r3
             = padStart2 (String_int (birthMonth r2)) @ js ''/'' @ padStart2 (String_int (birthDay r3))
               @ js ''/'' @ String_int (birthYear currentYear r1)
         \<and> generateBirthday True currentYear r1 r2 r3
             = String_int (birthYear currentYear r1) @ js ''/'' @ padStart2 (String_int (birthMonth r2))
               @ js ''/'' @ padStart2 (String_int (birthDay r3))"
proof -
  have y: "0 \<le> \<lfloor>r1 * 22\<rfloor> \<and> \<lfloor>r1 * 22\<rfloor> \<le> 21"
    using floor_scaled_unit [of r1 22] assms by simp
  have m: "0 \<le> \<lfloor>r2 * 12\<rfloor> \<and> \<lfloor>r2 * 12\<rfloor> \<le> 11"
    using floor_scaled_unit [of r2 12] assms by simp
  have d: "0 \<le> \<lfloor>r3 * 28\<rfloor> \<and> \<lfloor>r3 * 28\<rfloor> \<le> 27"
    using floor_scaled_unit [of r3 28] assms by simp
  show ?thesis
    using y m d
    by (simp add: birthYear_def birthMonth_def birthDay_def inlineBirthday_def generateBirthday_def)
qed

text \<open>
  The age at generation time is therefore between 17 and 39, on every day of generation:
  it is the difference of the years, or one less while the birthday is still to come.
\<close>

lemma generateBirthday_age_on_day:
  assumes "0 \<le> r1" "r1 < 1" "0 \<le> r2" "r2 < 1" "0 \<le> r3" "r3 < 1"
  shows "17 \<le> ageOnDay (cy, cm, cd) (inlineBirthday cy r1 r2 r3)
         \<and> ageOnDay (cy, cm, cd) (inlineBirthday cy r1 r2 r3) \<le> 39"
proof -
  have y: "0 \<le> \<lfloor>r1 * 22\<rfloor> \<and> \<lfloor>r1 * 22\<rfloor> \<le> 21"
    using floor_scaled_unit [of r1 22] assms by simp
  show ?thesis
    using y by (simp add: ageOnDay_def inlineBirthday_def)
qed

text \<open>
  C1. The month and the day are in range, but the age is not: the code subtracts at
  least 18 from the current year and ignores month and day, although its comment reads
  "18-40". On 3 November 2026, the draws 0.01, 0.99 and 0.99 give the date 12/28/2008
  (2008/12/28 on a Chinese page, and the same three numbers inline in
  \<open>enterNameAndBirthday\<close>), the date of birth of somebody who is 17 at generation time.
\<close>

theorem generateBirthday_under_eighteen:
  "generateBirthday False 2026 (1/100) (99/100) (99/100) = js ''12/28/2008''
   \<and> generateBirthday True 2026 (1/100) (99/100) (99/100) = js ''2008/12/28''
   \<and> inlineBirthday 2026 (1/100) (99/100) (99/100) = (2008, 12, 28)
   \<and> ageOnDay (2026, 11, 3) (2008, 12, 28) = 17"
  by (simp add: generateBirthday_def birthYear_def birthMonth_def birthDay_def String_int_def
        padStart2_def decimal.simps js_def ageOnDay_def inlineBirthday_def)


subsection \<open>Verification-code extraction\<close>

lemma hasDigitRun_ahead: "digitsAhead n s \<Longrightarrow> hasDigitRun n s"
  by (cases s) auto

lemma hasDigitRun_Cons: "hasDigitRun n s \<Longrightarrow> hasDigitRun n (c # s)"
  by simp

lemma regex_run_digits:
  "regex_run (Repeat digit k (Some k) True # ns) behind rest g = Some r \<Longrightarrow> digitsAhead k rest"
proof (induction k arbitrary: behind rest)
  case 0
  show ?case by simp
next
  case (Suc k)
  from regex_run_Repeat [OF Suc.prems] obtain x xs
    where "rest = x # xs" "member_of digit x"
      "regex_run (Repeat digit k (Some k) True # ns) (x # behind) xs g = Some r"
    by auto
  then show ?case using Suc.IH by auto
qed

lemma regex_run_needs_digits:
  "Repeat digit 6 (Some 6) True \<in> set ns \<Longrightarrow> regex_run ns behind rest g = Some r
     \<Longrightarrow> hasDigitRun 6 rest"
proof (induction ns behind rest g rule: regex_run_induct)
  case (Empty behind rest g)
  then show ?case by simp
next
  case (One cs ns behind rest g)
  from regex_run_One [OF One.prems(2)] obtain x xs
    where x: "rest = x # xs" "regex_run ns (x # behind) xs g = Some r" by blast
  have "Repeat digit 6 (Some 6) True \<in> set ns" using One.prems(1) by simp
  from One.IH [OF x(1) this x(2)] show ?case using x(1) by simp
next
  case (Repeat cs lo hi greedy ns behind rest g)
  show ?case
  proof (cases "Repeat digit 6 (Some 6) True \<in> set ns")
    case True
    from regex_run_Repeat [OF Repeat.prems(2)] show ?thesis
    proof
      assume "lo = 0 \<and> regex_run ns behind rest g = Some r"
      then show ?thesis using Repeat.IH(2) True by blast
    next
      assume "\<exists>x xs. rest = x # xs \<and> member_of cs x \<and> hi \<noteq> Some 0
               \<and> regex_run (Repeat cs (lo - 1) (fewer hi) greedy # ns) (x # behind) xs g = Some r"
      then obtain x xs where x: "rest = x # xs"
          "regex_run (Repeat cs (lo - 1) (fewer hi) greedy # ns) (x # behind) xs g = Some r"
        by blast
      have "Repeat digit 6 (Some 6) True \<in> set (Repeat cs (lo - 1) (fewer hi) greedy # ns)"
        using True by simp
      from Repeat.IH(1) [OF x(1) this x(2)] show ?thesis using x(1) by simp
    qed
  next
    case False
    then have "Repeat cs lo hi greedy = Repeat digit 6 (Some 6) True"
      using Repeat.prems(1) by simp
    then have "regex_run (Repeat digit 6 (Some 6) True # ns) behind rest g = Some r"
      using Repeat.prems(2) by simp
    then show ?thesis by (intro hasDigitRun_ahead regex_run_digits)
  qed
next
  case (WordBoundary ns behind rest g)
  then show ?case by (auto split: if_splits)
next
  case (InputStart ns behind rest g)
  then show ?case by (auto split: if_splits)
next
  case (InputEnd ns behind rest g)
  then show ?case by (auto split: if_splits)
next
  case (GroupOpen ns behind rest g)
  then show ?case by auto
next
  case (GroupClose ns behind rest g)
  from regex_run_GroupClose [OF GroupClose.prems(2)] GroupClose.IH GroupClose.prems(1)
  show ?case by auto
qed

lemma regex_search_needs_digits:
  "Repeat digit 6 (Some 6) True \<in> set ns \<Longrightarrow> regex_search ns behind rest = Some r
     \<Longrightarrow> hasDigitRun 6 rest"
proof (induction rest arbitrary: behind)
  case Nil
  then show ?case
    using regex_run_needs_digits [of ns behind "[]" NoGroup]
    by (auto split: option.splits)
next
  case (Cons x xs)
  show ?case
  proof (cases "regex_run ns behind (x # xs) NoGroup")
    case (Some r')
    then show ?thesis using regex_run_needs_digits [OF Cons.prems(1) Some] by simp
  next
    case None
    then have "regex_search ns (x # behind) xs = Some r" using Cons.prems(2) by simp
    from Cons.IH [OF Cons.prems(1) this] show ?thesis by simp
  qed
qed

lemma js_match_needs_digits:
  "Repeat digit 6 (Some 6) True \<in> set ns \<Longrightarrow> \<not> hasDigitRun 6 s \<Longrightarrow> js_match ns s = None"
  using regex_search_needs_digits [of ns "[]" s]
  by (cases "regex_search ns [] s") (auto simp: js_match_def)

lemma codePatterns_need_digits:
  "p \<in> set codePatterns \<Longrightarrow> Repeat digit 6 (Some 6) True \<in> set p"
  by (auto simp: codePatterns_def sixDigits_def)

lemma extractCode_loop_no_match:
  "(\<And>p. p \<in> set ps \<Longrightarrow> js_match p s = None) \<Longrightarrow> extractCode_loop ps s = None"
  by (induction ps) auto

lemma extractCode_loop_first_match:
  "i < length ps \<Longrightarrow> (\<forall>j<i. js_match (ps ! j) s = None) \<Longrightarrow> js_match (ps ! i) s = Some (whole, c)
     \<Longrightarrow> extractCode_loop ps s = c"
proof (induction ps arbitrary: i)
  case Nil
  then show ?case by simp
next
  case (Cons p ps)
  show ?case
  proof (cases i)
    case 0
    then show ?thesis using Cons.prems by simp
  next
    case (Suc k)
    then have "js_match p s = None" using Cons.prems(2) by auto
    moreover have "extractCode_loop ps s = c"
      using Cons.prems Suc by (intro Cons.IH [of k]) auto
    ultimately show ?thesis by simp
  qed
qed


text \<open>What the capture group holds after a match.\<close>

lemma regex_run_keeps_capture:
  "GroupOpen \<notin> set ns \<Longrightarrow> GroupClose \<notin> set ns \<Longrightarrow> regex_run ns behind rest g = Some (b', r', g')
     \<Longrightarrow> g' = g"
proof (induction ns behind rest g rule: regex_run_induct)
  case (One cs ns behind rest g)
  from regex_run_One [OF One.prems(3)] obtain x xs
    where x: "rest = x # xs" "regex_run ns (x # behind) xs g = Some (b', r', g')" by blast
  from One.IH [OF x(1) _ _ x(2)] One.prems show ?case by simp
next
  case (Repeat cs lo hi greedy ns behind rest g)
  from regex_run_Repeat [OF Repeat.prems(3)] show ?case
  proof
    assume "lo = 0 \<and> regex_run ns behind rest g = Some (b', r', g')"
    then show ?thesis using Repeat.IH(2) Repeat.prems by simp
  next
    assume "\<exists>x xs. rest = x # xs \<and> member_of cs x \<and> hi \<noteq> Some 0
             \<and> regex_run (Repeat cs (lo - 1) (fewer hi) greedy # ns) (x # behind) xs g = Some (b', r', g')"
    then obtain x xs where x: "rest = x # xs"
        "regex_run (Repeat cs (lo - 1) (fewer hi) greedy # ns) (x # behind) xs g = Some (b', r', g')"
      by blast
    from Repeat.IH(1) [OF x(1) _ _ x(2)] Repeat.prems show ?thesis by simp
  qed
qed (auto split: if_splits)

lemma regex_run_captures_digits:
  "GroupOpen \<notin> set post \<Longrightarrow> GroupClose \<notin> set post
     \<Longrightarrow> regex_run (Repeat digit k (Some k) True # GroupClose # post) behind rest (Opened i)
           = Some (b', r', g')
     \<Longrightarrow> digitsAhead k rest \<and> g' = Captured i (length behind + k)"
proof (induction k arbitrary: behind rest)
  case 0
  from regex_run_Repeat [OF "0.prems"(3)]
  have "regex_run post behind rest (Captured i (length behind)) = Some (b', r', g')" by simp
  from regex_run_keeps_capture [OF "0.prems"(1,2) this] show ?case by simp
next
  case (Suc k)
  from regex_run_Repeat [OF Suc.prems(3)] obtain x xs
    where x: "rest = x # xs" "member_of digit x"
      "regex_run (Repeat digit k (Some k) True # GroupClose # post) (x # behind) xs (Opened i)
         = Some (b', r', g')"
    by auto
  from Suc.IH [OF Suc.prems(1,2) x(3)] x(1,2) show ?case by simp
qed

lemma digitsAhead_take: "digitsAhead n s \<Longrightarrow> length (take n s) = n \<and> digitsAhead n (take n s)"
  by (induction n s rule: digitsAhead.induct) auto

text \<open>
  A pattern that is a group-free prefix, the group \<open>(\d{6})\<close> and a group-free suffix
  captures six digits of the text it matches.
\<close>

lemma regex_run_capture_offsets:
  assumes "GroupOpen \<notin> set post" "GroupClose \<notin> set post"
  shows "ns = pre @ sixDigits @ post \<Longrightarrow> GroupOpen \<notin> set pre \<Longrightarrow> GroupClose \<notin> set pre
     \<Longrightarrow> regex_run ns behind rest g = Some (b', r', g')
     \<Longrightarrow> \<exists>skip. g' = Captured (length behind + length skip) (length behind + length skip + 6)
            \<and> take (length skip) rest = skip \<and> digitsAhead 6 (drop (length skip) rest)"
proof (induction ns behind rest g arbitrary: pre rule: regex_run_induct)
  case (Empty behind rest g)
  then show ?case by (simp add: sixDigits_def)
next
  case (One cs ns behind rest g)
  then obtain pre' where pre: "pre = One cs # pre'" "ns = pre' @ sixDigits @ post"
    by (cases pre) (auto simp: sixDigits_def)
  from regex_run_One [OF One.prems(4)] obtain x xs
    where x: "rest = x # xs" "regex_run ns (x # behind) xs g = Some (b', r', g')" by blast
  from One.IH [OF x(1) pre(2) _ _ x(2)] One.prems(2,3) pre(1)
  obtain skip where "g' = Captured (length (x # behind) + length skip) (length (x # behind) + length skip + 6)"
      "take (length skip) xs = skip" "digitsAhead 6 (drop (length skip) xs)"
    by auto
  then have "g' = Captured (length behind + length (x # skip)) (length behind + length (x # skip) + 6)
             \<and> take (length (x # skip)) rest = x # skip \<and> digitsAhead 6 (drop (length (x # skip)) rest)"
    using x(1) by simp
  then show ?case by blast
next
  case (Repeat cs lo hi greedy ns behind rest g)
  then obtain pre' where pre: "pre = Repeat cs lo hi greedy # pre'" "ns = pre' @ sixDigits @ post"
    by (cases pre) (auto simp: sixDigits_def)
  from regex_run_Repeat [OF Repeat.prems(4)] show ?case
  proof
    assume "lo = 0 \<and> regex_run ns behind rest g = Some (b', r', g')"
    then show ?thesis using Repeat.IH(2) [OF pre(2)] Repeat.prems(2,3) pre(1) by simp
  next
    assume "\<exists>x xs. rest = x # xs \<and> member_of cs x \<and> hi \<noteq> Some 0
             \<and> regex_run (Repeat cs (lo - 1) (fewer hi) greedy # ns) (x # behind) xs g = Some (b', r', g')"
    then obtain x xs where x: "rest = x # xs"
        "regex_run (Repeat cs (lo - 1) (fewer hi) greedy # ns) (x # behind) xs g = Some (b', r', g')"
      by blast
    have shape: "Repeat cs (lo - 1) (fewer hi) greedy # ns
                   = (Repeat cs (lo - 1) (fewer hi) greedy # pre') @ sixDigits @ post"
      using pre(2) by simp
    from Repeat.IH(1) [OF x(1) shape _ _ x(2)] Repeat.prems(2,3) pre(1)
    obtain skip where "g' = Captured (length (x # behind) + length skip) (length (x # behind) + length skip + 6)"
        "take (length skip) xs = skip" "digitsAhead 6 (drop (length skip) xs)"
      by auto
    then have "g' = Captured (length behind + length (x # skip)) (length behind + length (x # skip) + 6)
               \<and> take (length (x # skip)) rest = x # skip \<and> digitsAhead 6 (drop (length (x # skip)) rest)"
      using x(1) by simp
    then show ?thesis by blast
  qed
next
  case (WordBoundary ns behind rest g)
  then obtain pre' where pre: "pre = WordBoundary # pre'" "ns = pre' @ sixDigits @ post"
    by (cases pre) (auto simp: sixDigits_def)
  have "regex_run ns behind rest g = Some (b', r', g')"
    using WordBoundary.prems(4) by (auto split: if_splits)
  then show ?case using WordBoundary.IH [OF pre(2)] WordBoundary.prems(2,3) pre(1) by simp
next
  case (InputStart ns behind rest g)
  then obtain pre' where pre: "pre = InputStart # pre'" "ns = pre' @ sixDigits @ post"
    by (cases pre) (auto simp: sixDigits_def)
  have "regex_run ns behind rest g = Some (b', r', g')"
    using InputStart.prems(4) by (auto split: if_splits)
  then show ?case using InputStart.IH [OF pre(2)] InputStart.prems(2,3) pre(1) by simp
next
  case (InputEnd ns behind rest g)
  then obtain pre' where pre: "pre = InputEnd # pre'" "ns = pre' @ sixDigits @ post"
    by (cases pre) (auto simp: sixDigits_def)
  have "regex_run ns behind rest g = Some (b', r', g')"
    using InputEnd.prems(4) by (auto split: if_splits)
  then show ?case using InputEnd.IH [OF pre(2)] InputEnd.prems(2,3) pre(1) by simp
next
  case (GroupOpen ns behind rest g)
  then have pre: "pre = []" "ns = Repeat digit 6 (Some 6) True # GroupClose # post"
    by (cases pre; auto simp: sixDigits_def)+
  have "regex_run (Repeat digit 6 (Some 6) True # GroupClose # post) behind rest (Opened (length behind))
          = Some (b', r', g')"
    using GroupOpen.prems(4) pre(2) by simp
  from regex_run_captures_digits [OF assms this]
  have "g' = Captured (length behind + length ([] :: jsstring)) (length behind + length ([] :: jsstring) + 6)
        \<and> take (length ([] :: jsstring)) rest = [] \<and> digitsAhead 6 (drop (length ([] :: jsstring)) rest)"
    by simp
  then show ?case by blast
next
  case (GroupClose ns behind rest g)
  then show ?case by (cases pre) (auto simp: sixDigits_def)
qed


lemma regex_search_capture_offsets:
  assumes "GroupOpen \<notin> set post" "GroupClose \<notin> set post"
    and "GroupOpen \<notin> set pre" "GroupClose \<notin> set pre"
  shows "regex_search (pre @ sixDigits @ post) behind rest = Some (start, b', r', g')
     \<Longrightarrow> \<exists>skip. g' = Captured (length behind + length skip) (length behind + length skip + 6)
            \<and> take (length skip) rest = skip \<and> digitsAhead 6 (drop (length skip) rest)"
proof (induction rest arbitrary: behind)
  case Nil
  then have "regex_run (pre @ sixDigits @ post) behind [] NoGroup = Some (b', r', g')"
    by (auto split: option.splits)
  from regex_run_capture_offsets [OF assms(1,2) refl assms(3,4) this] show ?case .
next
  case (Cons x xs)
  show ?case
  proof (cases "regex_run (pre @ sixDigits @ post) behind (x # xs) NoGroup")
    case (Some r)
    then have "regex_run (pre @ sixDigits @ post) behind (x # xs) NoGroup = Some (b', r', g')"
      using Cons.prems by simp
    from regex_run_capture_offsets [OF assms(1,2) refl assms(3,4) this] show ?thesis .
  next
    case None
    then have "regex_search (pre @ sixDigits @ post) (x # behind) xs = Some (start, b', r', g')"
      using Cons.prems by simp
    from Cons.IH [OF this]
    obtain skip where "g' = Captured (length (x # behind) + length skip) (length (x # behind) + length skip + 6)"
        "take (length skip) xs = skip" "digitsAhead 6 (drop (length skip) xs)"
      by auto
    then have "g' = Captured (length behind + length (x # skip)) (length behind + length (x # skip) + 6)
               \<and> take (length (x # skip)) (x # xs) = x # skip
               \<and> digitsAhead 6 (drop (length (x # skip)) (x # xs))"
      by simp
    then show ?thesis by blast
  qed
qed

lemma js_match_captures_digits:
  assumes "GroupOpen \<notin> set post" "GroupClose \<notin> set post"
    and "GroupOpen \<notin> set pre" "GroupClose \<notin> set pre"
    and "js_match (pre @ sixDigits @ post) s = Some (whole, group1)"
  shows "\<exists>a c b. group1 = Some c \<and> s = a @ c @ b \<and> length c = 6 \<and> digitsAhead 6 c"
proof -
  from assms(5) obtain start b' r' g' where
    found: "regex_search (pre @ sixDigits @ post) [] s = Some (start, b', r', g')"
    and grp: "group1 = (case g' of Captured i j \<Rightarrow> Some (take (j - i) (drop i s)) | _ \<Rightarrow> None)"
    by (auto simp: js_match_def split: option.splits)
  from regex_search_capture_offsets [OF assms(1-4) found]
  obtain skip where skip: "g' = Captured (length skip) (length skip + 6)"
      "take (length skip) s = skip" "digitsAhead 6 (drop (length skip) s)"
    by auto
  let ?c = "take 6 (drop (length skip) s)"
  have "group1 = Some ?c" using grp skip(1) by simp
  moreover have "s = skip @ ?c @ drop 6 (drop (length skip) s)"
    using skip(2) by (metis append_take_drop_id)
  moreover have "length ?c = 6 \<and> digitsAhead 6 ?c"
    using digitsAhead_take [OF skip(3)] .
  ultimately show ?thesis by blast
qed

lemma caseless_groupless: "GroupOpen \<notin> set (caseless s) \<and> GroupClose \<notin> set (caseless s)"
  by (auto simp: caseless_def)

lemma literal_groupless: "GroupOpen \<notin> set (literal s) \<and> GroupClose \<notin> set (literal s)"
  by (auto simp: literal_def)

lemma codePatterns_shape:
  assumes "p \<in> set codePatterns"
  shows "\<exists>pre post. p = pre @ sixDigits @ post
           \<and> GroupOpen \<notin> set pre \<and> GroupClose \<notin> set pre
           \<and> GroupOpen \<notin> set post \<and> GroupClose \<notin> set post"
proof -
  have lead: "\<exists>pre post. ws @ Repeat colonOrSpace lo None True # sixDigits = pre @ sixDigits @ post
           \<and> GroupOpen \<notin> set pre \<and> GroupClose \<notin> set pre
           \<and> GroupOpen \<notin> set post \<and> GroupClose \<notin> set post"
    if "GroupOpen \<notin> set ws \<and> GroupClose \<notin> set ws" for ws lo
  proof -
    have "ws @ Repeat colonOrSpace lo None True # sixDigits
            = (ws @ [Repeat colonOrSpace lo None True]) @ sixDigits @ []"
      by simp
    moreover have "GroupOpen \<notin> set (ws @ [Repeat colonOrSpace lo None True])
                   \<and> GroupClose \<notin> set (ws @ [Repeat colonOrSpace lo None True])"
      using that by simp
    ultimately show ?thesis by (metis empty_iff list.set(1))
  qed
  have bare: "\<exists>pre post. WordBoundary # sixDigits @ [WordBoundary] = pre @ sixDigits @ post
           \<and> GroupOpen \<notin> set pre \<and> GroupClose \<notin> set pre
           \<and> GroupOpen \<notin> set post \<and> GroupClose \<notin> set post"
  proof -
    have "WordBoundary # sixDigits @ [WordBoundary] = [WordBoundary] @ sixDigits @ [WordBoundary]"
      by simp
    moreover have "GroupOpen \<notin> set [WordBoundary] \<and> GroupClose \<notin> set [WordBoundary]" by simp
    ultimately show ?thesis by metis
  qed
  from assms consider
      "p = caseless (js ''verification code'') @ Repeat colonOrSpace 1 None True # sixDigits"
    | "p = caseless (js ''verify'') @ Repeat colonOrSpace 1 None True # sixDigits"
    | "p = caseless (js ''code'') @ Repeat colonOrSpace 1 None True # sixDigits"
    | "p = literal [39564, 35777, 30721] @ Repeat colonOrSpace 0 None True # sixDigits"
    | "p = caseless (js ''Your code is'') @ Repeat colonOrSpace 0 None True # sixDigits"
    | "p = caseless (js ''Enter this code'') @ Repeat colonOrSpace 0 None True # sixDigits"
    | "p = WordBoundary # sixDigits @ [WordBoundary]"
    unfolding codePatterns_def by auto
  then show ?thesis
    using lead [OF caseless_groupless] lead [OF literal_groupless] bare
    by cases simp_all
qed

lemma codePattern_captures_digits:
  assumes "p \<in> set codePatterns" and "js_match p s = Some (whole, group1)"
  shows "\<exists>a c b. group1 = Some c \<and> s = a @ c @ b \<and> length c = 6 \<and> digitsAhead 6 c"
proof -
  from codePatterns_shape [OF assms(1)] obtain pre post where
    "p = pre @ sixDigits @ post" "GroupOpen \<notin> set pre" "GroupClose \<notin> set pre"
    "GroupOpen \<notin> set post" "GroupClose \<notin> set post"
    by blast
  then show ?thesis
    using js_match_captures_digits [of post pre s whole group1] assms(2) by simp
qed

lemma extractCode_loop_Some:
  "extractCode_loop ps s = Some c \<Longrightarrow> \<exists>p\<in>set ps. \<exists>whole. js_match p s = Some (whole, Some c)"
proof (induction ps)
  case Nil
  then show ?case by simp
next
  case (Cons p ps)
  then show ?case by (cases "js_match p s") auto
qed

lemma extractCode_loop_None:
  assumes "\<And>q whole. q \<in> set ps \<Longrightarrow> js_match q s \<noteq> Some (whole, None)"
  shows "extractCode_loop ps s = None \<Longrightarrow> p \<in> set ps \<Longrightarrow> js_match p s = None"
  using assms
proof (induction ps)
  case Nil
  then show ?case by simp
next
  case (Cons q ps)
  show ?case
  proof (cases "js_match q s")
    case None
    then have "extractCode_loop ps s = None" using Cons.prems(1) by simp
    then show ?thesis using None Cons.IH Cons.prems(2,3) by auto
  next
    case (Some m)
    obtain whole group1 where m: "m = (whole, group1)" by (cases m)
    then have "group1 = None" using Some Cons.prems(1) by simp
    then show ?thesis using Some m Cons.prems(3) [of q whole] by simp
  qed
qed

lemma extractCodeScript_six_digits:
  assumes "extractCodeScript d = Some c"
  shows "\<exists>a b. bodyInnerText d = a @ c @ b \<and> length c = 6 \<and> digitsAhead 6 c"
proof -
  from extractCode_loop_Some [OF assms [unfolded extractCodeScript_def]]
  obtain p whole where "p \<in> set codePatterns" "js_match p (bodyInnerText d) = Some (whole, Some c)"
    by blast
  from codePattern_captures_digits [OF this] show ?thesis by auto
qed


text \<open>A match further on is found by the search, unless an earlier one is.\<close>

lemma regex_search_finds:
  "regex_run ns (rev skipped @ behind) rest NoGroup \<noteq> None
     \<Longrightarrow> regex_search ns behind (skipped @ rest) \<noteq> None"
proof (induction skipped arbitrary: behind)
  case Nil
  then show ?case by (cases rest) (auto split: option.splits)
next
  case (Cons x skipped)
  then have "regex_search ns (x # behind) (skipped @ rest) \<noteq> None" by simp
  then show ?case by (auto split: option.splits)
qed

lemma yourCodeIs_matches:
  "regex_run (caseless (js ''Your code is'') @ Repeat colonOrSpace 0 None True # sixDigits)
      behind (js ''Your code is 482913'' @ rest) NoGroup \<noteq> None"
  by (simp add: caseless_def bothCases_def js_def sixDigits_def digit_def colonOrSpace_def
        whiteSpace_def regex_run.simps(3) split: list.splits)

lemma digitsAhead_all: "length c = n \<Longrightarrow> digitsAhead n c \<Longrightarrow> \<forall>x\<in>set c. member_of digit x"
  by (induction n c rule: digitsAhead.induct) auto

lemma digitsAhead_iff:
  "digitsAhead n s \<longleftrightarrow> (\<exists>c b. s = c @ b \<and> length c = n \<and> (\<forall>x\<in>set c. member_of digit x))"
proof (induction n s rule: digitsAhead.induct)
  case (1 s)
  show ?case by simp
next
  case (2 n)
  show ?case by simp
next
  case (3 n x s)
  show ?case
  proof
    assume "digitsAhead (Suc n) (x # s)"
    then obtain c b where "member_of digit x" "s = c @ b" "length c = n" "\<forall>y\<in>set c. member_of digit y"
      using 3 by auto
    then have "x # s = (x # c) @ b \<and> length (x # c) = Suc n \<and> (\<forall>y\<in>set (x # c). member_of digit y)"
      by simp
    then show "\<exists>c b. x # s = c @ b \<and> length c = Suc n \<and> (\<forall>y\<in>set c. member_of digit y)"
      by blast
  next
    assume "\<exists>c b. x # s = c @ b \<and> length c = Suc n \<and> (\<forall>y\<in>set c. member_of digit y)"
    then obtain c b where cb: "x # s = c @ b" "length c = Suc n" "\<forall>y\<in>set c. member_of digit y"
      by blast
    then obtain c' where c': "c = x # c'" by (cases c) auto
    then have "s = c' @ b \<and> length c' = n \<and> (\<forall>y\<in>set c'. member_of digit y)" "member_of digit x"
      using cb by auto
    then show "digitsAhead (Suc n) (x # s)" using 3 by auto
  qed
qed

text \<open>\<open>hasDigitRun n s\<close>: somewhere in \<open>s\<close> there are \<open>n\<close> digits in a row.\<close>

lemma hasDigitRun_iff:
  "hasDigitRun n s \<longleftrightarrow>
     (\<exists>a c b. s = a @ c @ b \<and> length c = n \<and> (\<forall>x\<in>set c. member_of digit x))"
proof (induction s)
  case Nil
  show ?case by (cases n) auto
next
  case (Cons x s)
  show ?case
  proof
    assume "hasDigitRun n (x # s)"
    then consider "digitsAhead n (x # s)" | "hasDigitRun n s" by auto
    then show "\<exists>a c b. x # s = a @ c @ b \<and> length c = n \<and> (\<forall>y\<in>set c. member_of digit y)"
    proof cases
      case 1
      then obtain c b where "x # s = [] @ c @ b \<and> length c = n \<and> (\<forall>y\<in>set c. member_of digit y)"
        using digitsAhead_iff [of n "x # s"] by auto
      then show ?thesis by blast
    next
      case 2
      then obtain a c b where "s = a @ c @ b" "length c = n" "\<forall>y\<in>set c. member_of digit y"
        using Cons.IH by blast
      then have "x # s = (x # a) @ c @ b \<and> length c = n \<and> (\<forall>y\<in>set c. member_of digit y)"
        by simp
      then show ?thesis by blast
    qed
  next
    assume "\<exists>a c b. x # s = a @ c @ b \<and> length c = n \<and> (\<forall>y\<in>set c. member_of digit y)"
    then obtain a c b where acb: "x # s = a @ c @ b" "length c = n" "\<forall>y\<in>set c. member_of digit y"
      by blast
    show "hasDigitRun n (x # s)"
    proof (cases a)
      case Nil
      then have "digitsAhead n (x # s)" using acb digitsAhead_iff [of n "x # s"] by auto
      then show ?thesis by simp
    next
      case (Cons y a')
      then have "s = a' @ c @ b" using acb(1) by simp
      then have "hasDigitRun n s" using Cons.IH acb(2,3) by blast
      then show ?thesis by simp
    qed
  qed
qed

text \<open>The code unit in front of the capture is not a digit.\<close>

lemma afterNonDigit_Cons: "afterNonDigit (x # behind) skip = afterNonDigit behind (x # skip)"
  by (simp add: afterNonDigit_def)

lemma afterNonDigit_start: "\<not> member_of digit x \<Longrightarrow> afterNonDigit (x # behind) []"
  by (simp add: afterNonDigit_def)

lemma regex_run_capture_after_nondigit:
  assumes "GroupOpen \<notin> set post" "GroupClose \<notin> set post"
  shows "ns = pre @ sixDigits @ post
     \<Longrightarrow> \<forall>n\<in>set pre. \<exists>cs. (n = One cs \<or> (\<exists>lo hi gr. n = Repeat cs lo hi gr))
                          \<and> (\<forall>c. member_of cs c \<longrightarrow> \<not> member_of digit c)
     \<Longrightarrow> (\<exists>cs pre'. pre = One cs # pre') \<or> afterNonDigit behind []
     \<Longrightarrow> regex_run ns behind rest g = Some (b', r', g')
     \<Longrightarrow> \<exists>skip. g' = Captured (length behind + length skip) (length behind + length skip + 6)
            \<and> take (length skip) rest = skip \<and> digitsAhead 6 (drop (length skip) rest)
            \<and> afterNonDigit behind skip"
proof (induction ns behind rest g arbitrary: pre rule: regex_run_induct)
  case (Empty behind rest g)
  then show ?case by (simp add: sixDigits_def)
next
  case (One cs ns behind rest g)
  then obtain pre' where pre: "pre = One cs # pre'" "ns = pre' @ sixDigits @ post"
    by (cases pre) (auto simp: sixDigits_def)
  from regex_run_One [OF One.prems(4)] obtain x xs
    where x: "rest = x # xs" "member_of cs x" "regex_run ns (x # behind) xs g = Some (b', r', g')"
    by blast
  have nd: "\<not> member_of digit x" using One.prems(2) pre(1) x(2) by auto
  have free: "\<forall>n\<in>set pre'. \<exists>cs. (n = One cs \<or> (\<exists>lo hi gr. n = Repeat cs lo hi gr))
                          \<and> (\<forall>c. member_of cs c \<longrightarrow> \<not> member_of digit c)"
    using One.prems(2) pre(1) by simp
  have "(\<exists>cs pre''. pre' = One cs # pre'') \<or> afterNonDigit (x # behind) []"
    using afterNonDigit_start [OF nd] by simp
  from One.IH [OF x(1) pre(2) free this x(3)]
  obtain skip where "g' = Captured (length (x # behind) + length skip) (length (x # behind) + length skip + 6)"
      "take (length skip) xs = skip" "digitsAhead 6 (drop (length skip) xs)"
      "afterNonDigit (x # behind) skip"
    by auto
  then have "g' = Captured (length behind + length (x # skip)) (length behind + length (x # skip) + 6)
             \<and> take (length (x # skip)) rest = x # skip \<and> digitsAhead 6 (drop (length (x # skip)) rest)
             \<and> afterNonDigit behind (x # skip)"
    using x(1) by (simp add: afterNonDigit_Cons)
  then show ?case by blast
next
  case (Repeat cs lo hi greedy ns behind rest g)
  then obtain pre' where pre: "pre = Repeat cs lo hi greedy # pre'" "ns = pre' @ sixDigits @ post"
    by (cases pre) (auto simp: sixDigits_def)
  have here: "afterNonDigit behind []" using Repeat.prems(3) pre(1) by simp
  have free: "\<forall>n\<in>set pre'. \<exists>cs. (n = One cs \<or> (\<exists>lo hi gr. n = Repeat cs lo hi gr))
                          \<and> (\<forall>c. member_of cs c \<longrightarrow> \<not> member_of digit c)"
    and cs: "\<forall>c. member_of cs c \<longrightarrow> \<not> member_of digit c"
    using Repeat.prems(2) pre(1) by simp_all
  from regex_run_Repeat [OF Repeat.prems(4)] show ?case
  proof
    assume "lo = 0 \<and> regex_run ns behind rest g = Some (b', r', g')"
    then show ?thesis using Repeat.IH(2) [OF pre(2) free] here by simp
  next
    assume "\<exists>x xs. rest = x # xs \<and> member_of cs x \<and> hi \<noteq> Some 0
             \<and> regex_run (Repeat cs (lo - 1) (fewer hi) greedy # ns) (x # behind) xs g = Some (b', r', g')"
    then obtain x xs where x: "rest = x # xs" "member_of cs x"
        "regex_run (Repeat cs (lo - 1) (fewer hi) greedy # ns) (x # behind) xs g = Some (b', r', g')"
      by blast
    have nd: "\<not> member_of digit x" using cs x(2) by simp
    have shape: "Repeat cs (lo - 1) (fewer hi) greedy # ns
                   = (Repeat cs (lo - 1) (fewer hi) greedy # pre') @ sixDigits @ post"
      using pre(2) by simp
    have free': "\<forall>n\<in>set (Repeat cs (lo - 1) (fewer hi) greedy # pre').
                    \<exists>cs. (n = One cs \<or> (\<exists>lo hi gr. n = Repeat cs lo hi gr))
                          \<and> (\<forall>c. member_of cs c \<longrightarrow> \<not> member_of digit c)"
      using free cs by auto
    have "(\<exists>cs' pre''. Repeat cs (lo - 1) (fewer hi) greedy # pre' = One cs' # pre'')
            \<or> afterNonDigit (x # behind) []"
      using afterNonDigit_start [OF nd] by simp
    from Repeat.IH(1) [OF x(1) shape free' this x(3)]
    obtain skip where "g' = Captured (length (x # behind) + length skip) (length (x # behind) + length skip + 6)"
        "take (length skip) xs = skip" "digitsAhead 6 (drop (length skip) xs)"
        "afterNonDigit (x # behind) skip"
      by auto
    then have "g' = Captured (length behind + length (x # skip)) (length behind + length (x # skip) + 6)
               \<and> take (length (x # skip)) rest = x # skip \<and> digitsAhead 6 (drop (length (x # skip)) rest)
               \<and> afterNonDigit behind (x # skip)"
      using x(1) by (simp add: afterNonDigit_Cons)
    then show ?thesis by blast
  qed
next
  case (WordBoundary ns behind rest g)
  then show ?case by (cases pre) (auto simp: sixDigits_def)
next
  case (InputStart ns behind rest g)
  then show ?case by (cases pre) (auto simp: sixDigits_def)
next
  case (InputEnd ns behind rest g)
  then show ?case by (cases pre) (auto simp: sixDigits_def)
next
  case (GroupOpen ns behind rest g)
  then have pre: "pre = []" "ns = Repeat digit 6 (Some 6) True # GroupClose # post"
    by (cases pre; auto simp: sixDigits_def)+
  have "regex_run (Repeat digit 6 (Some 6) True # GroupClose # post) behind rest (Opened (length behind))
          = Some (b', r', g')"
    using GroupOpen.prems(4) pre(2) by simp
  from regex_run_captures_digits [OF assms this] GroupOpen.prems(3) pre(1)
  have "g' = Captured (length behind + length ([] :: jsstring)) (length behind + length ([] :: jsstring) + 6)
        \<and> take (length ([] :: jsstring)) rest = [] \<and> digitsAhead 6 (drop (length ([] :: jsstring)) rest)
        \<and> afterNonDigit behind []"
    by simp
  then show ?case by blast
next
  case (GroupClose ns behind rest g)
  then show ?case by (cases pre) (auto simp: sixDigits_def)
qed

lemma regex_run_bare_after_nondigit:
  assumes "regex_run (WordBoundary # sixDigits @ [WordBoundary]) behind rest g = Some (b', r', g')"
  shows "\<exists>skip. g' = Captured (length behind + length skip) (length behind + length skip + 6)
            \<and> take (length skip) rest = skip \<and> digitsAhead 6 (drop (length skip) rest)
            \<and> afterNonDigit behind skip"
proof -
  have wb: "atWordChar behind \<noteq> atWordChar rest"
    and run: "regex_run (Repeat digit 6 (Some 6) True # GroupClose # [WordBoundary]) behind rest
                (Opened (length behind)) = Some (b', r', g')"
    using assms by (auto simp: sixDigits_def split: if_splits)
  from regex_run_captures_digits [OF _ _ run]
  have cap: "digitsAhead 6 rest" "g' = Captured (length behind) (length behind + 6)" by simp_all
  then obtain x xs where "rest = x # xs" "member_of digit x"
    by (cases rest) (auto simp: eval_nat_numeral)
  then have "atWordChar rest" by (auto simp: atWordChar_def isWordChar_def digit_def)
  then have "\<not> atWordChar behind" using wb by simp
  then have "afterNonDigit behind []"
    by (cases behind) (auto simp: afterNonDigit_def atWordChar_def isWordChar_def digit_def)
  then have "g' = Captured (length behind + length ([] :: jsstring)) (length behind + length ([] :: jsstring) + 6)
        \<and> take (length ([] :: jsstring)) rest = [] \<and> digitsAhead 6 (drop (length ([] :: jsstring)) rest)
        \<and> afterNonDigit behind []"
    using cap by simp
  then show ?thesis by blast
qed

lemma regex_search_capture_after_nondigit:
  assumes run: "\<And>behind rest m. regex_run p behind rest NoGroup = Some m
     \<Longrightarrow> \<exists>skip. snd (snd m) = Captured (length behind + length skip) (length behind + length skip + 6)
            \<and> take (length skip) rest = skip \<and> digitsAhead 6 (drop (length skip) rest)
            \<and> afterNonDigit behind skip"
  shows "regex_search p behind rest = Some (start, b', r', g')
     \<Longrightarrow> \<exists>skip. g' = Captured (length behind + length skip) (length behind + length skip + 6)
            \<and> take (length skip) rest = skip \<and> digitsAhead 6 (drop (length skip) rest)
            \<and> afterNonDigit behind skip"
proof (induction rest arbitrary: behind)
  case Nil
  then have "regex_run p behind [] NoGroup = Some (b', r', g')"
    by (auto split: option.splits)
  from run [OF this] show ?case by simp
next
  case (Cons x xs)
  show ?case
  proof (cases "regex_run p behind (x # xs) NoGroup")
    case (Some r)
    then have "regex_run p behind (x # xs) NoGroup = Some (b', r', g')"
      using Cons.prems by simp
    from run [OF this] show ?thesis by simp
  next
    case None
    then have "regex_search p (x # behind) xs = Some (start, b', r', g')"
      using Cons.prems by simp
    from Cons.IH [OF this]
    obtain skip where "g' = Captured (length (x # behind) + length skip) (length (x # behind) + length skip + 6)"
        "take (length skip) xs = skip" "digitsAhead 6 (drop (length skip) xs)"
        "afterNonDigit (x # behind) skip"
      by auto
    then have "g' = Captured (length behind + length (x # skip)) (length behind + length (x # skip) + 6)
               \<and> take (length (x # skip)) (x # xs) = x # skip
               \<and> digitsAhead 6 (drop (length (x # skip)) (x # xs))
               \<and> afterNonDigit behind (x # skip)"
      by (simp add: afterNonDigit_Cons)
    then show ?thesis by blast
  qed
qed


lemma caseless_digit_free:
  "\<forall>c\<in>set s. \<not> member_of digit c
     \<Longrightarrow> \<forall>n\<in>set (caseless s). \<exists>cs. n = One cs \<and> (\<forall>c. member_of cs c \<longrightarrow> \<not> member_of digit c)"
  by (auto simp: caseless_def bothCases_def digit_def)

lemma literal_digit_free:
  "\<forall>c\<in>set s. \<not> member_of digit c
     \<Longrightarrow> \<forall>n\<in>set (literal s). \<exists>cs. n = One cs \<and> (\<forall>c. member_of cs c \<longrightarrow> \<not> member_of digit c)"
  by (auto simp: literal_def digit_def)

lemma colonOrSpace_digit_free: "member_of colonOrSpace c \<Longrightarrow> \<not> member_of digit c"
  by (auto simp: colonOrSpace_def whiteSpace_def digit_def)

lemma regex_run_lead_after_nondigit:
  assumes ws: "\<forall>n\<in>set ws. \<exists>cs. n = One cs \<and> (\<forall>c. member_of cs c \<longrightarrow> \<not> member_of digit c)"
    and ne: "ws \<noteq> []"
    and run: "regex_run (ws @ Repeat colonOrSpace lo None True # sixDigits) behind rest g = Some (b', r', g')"
  shows "\<exists>skip. g' = Captured (length behind + length skip) (length behind + length skip + 6)
            \<and> take (length skip) rest = skip \<and> digitsAhead 6 (drop (length skip) rest)
            \<and> afterNonDigit behind skip"
proof (rule regex_run_capture_after_nondigit [of "[]" _ "ws @ [Repeat colonOrSpace lo None True]"])
  show "GroupOpen \<notin> set []" "GroupClose \<notin> set []" by simp_all
  show "ws @ Repeat colonOrSpace lo None True # sixDigits
          = (ws @ [Repeat colonOrSpace lo None True]) @ sixDigits @ []"
    by simp
  show "\<forall>n\<in>set (ws @ [Repeat colonOrSpace lo None True]).
          \<exists>cs. (n = One cs \<or> (\<exists>lo hi gr. n = Repeat cs lo hi gr))
               \<and> (\<forall>c. member_of cs c \<longrightarrow> \<not> member_of digit c)"
    using ws colonOrSpace_digit_free by auto
  obtain n ws' where "ws = n # ws'" using ne by (cases ws) auto
  then show "(\<exists>cs pre'. ws @ [Repeat colonOrSpace lo None True] = One cs # pre') \<or> afterNonDigit behind []"
    using ws by auto
  show "regex_run (ws @ Repeat colonOrSpace lo None True # sixDigits) behind rest g = Some (b', r', g')"
    by (rule run)
qed

lemma codePattern_run_after_nondigit:
  assumes "p \<in> set codePatterns" and "regex_run p behind rest g = Some (b', r', g')"
  shows "\<exists>skip. g' = Captured (length behind + length skip) (length behind + length skip + 6)
            \<and> take (length skip) rest = skip \<and> digitsAhead 6 (drop (length skip) rest)
            \<and> afterNonDigit behind skip"
proof -
  have words: "\<forall>c\<in>set (js ''verification code''). \<not> member_of digit c"
      "\<forall>c\<in>set (js ''verify''). \<not> member_of digit c"
      "\<forall>c\<in>set (js ''code''). \<not> member_of digit c"
      "\<forall>c\<in>set [39564, 35777, 30721]. \<not> member_of digit c"
      "\<forall>c\<in>set (js ''Your code is''). \<not> member_of digit c"
      "\<forall>c\<in>set (js ''Enter this code''). \<not> member_of digit c"
    by (simp_all add: js_def digit_def)
  have ne: "caseless (js ''verification code'') \<noteq> []" "caseless (js ''verify'') \<noteq> []"
      "caseless (js ''code'') \<noteq> []" "literal [39564, 35777, 30721] \<noteq> []"
      "caseless (js ''Your code is'') \<noteq> []" "caseless (js ''Enter this code'') \<noteq> []"
    by (simp_all add: caseless_def literal_def js_def)
  from assms(1) consider
      "p = caseless (js ''verification code'') @ Repeat colonOrSpace 1 None True # sixDigits"
    | "p = caseless (js ''verify'') @ Repeat colonOrSpace 1 None True # sixDigits"
    | "p = caseless (js ''code'') @ Repeat colonOrSpace 1 None True # sixDigits"
    | "p = literal [39564, 35777, 30721] @ Repeat colonOrSpace 0 None True # sixDigits"
    | "p = caseless (js ''Your code is'') @ Repeat colonOrSpace 0 None True # sixDigits"
    | "p = caseless (js ''Enter this code'') @ Repeat colonOrSpace 0 None True # sixDigits"
    | "p = WordBoundary # sixDigits @ [WordBoundary]"
    unfolding codePatterns_def by auto
  then show ?thesis
  proof cases
    case 1
    show ?thesis
      by (rule regex_run_lead_after_nondigit [OF caseless_digit_free [OF words(1)] ne(1)])
         (use assms(2) 1 in simp)
  next
    case 2
    show ?thesis
      by (rule regex_run_lead_after_nondigit [OF caseless_digit_free [OF words(2)] ne(2)])
         (use assms(2) 2 in simp)
  next
    case 3
    show ?thesis
      by (rule regex_run_lead_after_nondigit [OF caseless_digit_free [OF words(3)] ne(3)])
         (use assms(2) 3 in simp)
  next
    case 4
    show ?thesis
      by (rule regex_run_lead_after_nondigit [OF literal_digit_free [OF words(4)] ne(4)])
         (use assms(2) 4 in simp)
  next
    case 5
    show ?thesis
      by (rule regex_run_lead_after_nondigit [OF caseless_digit_free [OF words(5)] ne(5)])
         (use assms(2) 5 in simp)
  next
    case 6
    show ?thesis
      by (rule regex_run_lead_after_nondigit [OF caseless_digit_free [OF words(6)] ne(6)])
         (use assms(2) 6 in simp)
  next
    case 7
    show ?thesis
      by (rule regex_run_bare_after_nondigit) (use assms(2) 7 in simp)
  qed
qed

lemma codePattern_capture_after_nondigit:
  assumes "p \<in> set codePatterns" and "js_match p s = Some (whole, Some c)"
  shows "\<exists>a b. s = a @ c @ b \<and> length c = 6 \<and> digitsAhead 6 c
           \<and> (a = [] \<or> \<not> member_of digit (last a))"
proof -
  from assms(2) obtain start b' r' g' where
    found: "regex_search p [] s = Some (start, b', r', g')"
    and grp: "Some c = (case g' of Captured i j \<Rightarrow> Some (take (j - i) (drop i s)) | _ \<Rightarrow> None)"
    by (auto simp: js_match_def split: option.splits)
  have run: "\<exists>skip. snd (snd m) = Captured (length behind + length skip) (length behind + length skip + 6)
            \<and> take (length skip) rest = skip \<and> digitsAhead 6 (drop (length skip) rest)
            \<and> afterNonDigit behind skip"
    if "regex_run p behind rest NoGroup = Some m" for behind rest m
    using codePattern_run_after_nondigit [OF assms(1), of behind rest NoGroup "fst m" "fst (snd m)" "snd (snd m)"]
          that
    by simp
  from regex_search_capture_after_nondigit [of p, OF run found]
  obtain skip where skip: "g' = Captured (length skip) (length skip + 6)"
      "take (length skip) s = skip" "digitsAhead 6 (drop (length skip) s)"
      "afterNonDigit [] skip"
    by auto
  have c: "c = take 6 (drop (length skip) s)" using grp skip(1) by simp
  have "s = skip @ c @ drop 6 (drop (length skip) s)"
    unfolding c using skip(2) by (metis append_take_drop_id)
  moreover have "length c = 6 \<and> digitsAhead 6 c"
    unfolding c using digitsAhead_take [OF skip(3)] .
  moreover have "skip = [] \<or> \<not> member_of digit (last skip)"
  proof (cases skip rule: rev_cases)
    case Nil
    then show ?thesis by simp
  next
    case (snoc ys y)
    then show ?thesis using skip(4) by (simp add: afterNonDigit_def)
  qed
  ultimately show ?thesis by blast
qed


lemma digit_run_located:
  assumes pre: "\<not> hasDigitRun (length ds) pre" and post: "\<not> hasDigitRun (length ds) post"
    and k: "k \<noteq> []" "\<forall>x\<in>set k. \<not> member_of digit x"
    and ds: "\<forall>x\<in>set ds. member_of digit x"
    and eq: "pre @ k @ ds @ post = a @ c @ b" and len: "length c = length ds"
    and c: "\<forall>x\<in>set c. member_of digit x"
    and a: "a = [] \<or> \<not> member_of digit (last a)"
  shows "c = ds"
proof (cases "ds = []")
  case True
  then show ?thesis using len by simp
next
  case False
  then have positive: "0 < length ds" "0 < length k" using k(1) by simp_all
  let ?s = "pre @ k @ ds @ post"
  have nth_k: "?s ! (length pre + i) = k ! i" if "i < length k" for i
    using that by (simp add: nth_append)
  have nth_ds: "?s ! (length pre + length k + i) = ds ! i" if "i < length ds" for i
    using that by (simp add: nth_append)
  have nth_c: "(a @ c @ b) ! (length a + i) = c ! i" if "i < length c" for i
    using that by (simp add: nth_append)
  have nth_a: "(a @ c @ b) ! i = a ! i" if "i < length a" for i
    using that by (simp add: nth_append)
  consider (inPre) "length a + length ds \<le> length pre"
    | (onWords) "length pre < length a + length ds" "length a < length pre + length k"
    | (exact) "length a = length pre + length k"
    | (inside) "length pre + length k < length a" "length a < length pre + length k + length ds"
    | (inPost) "length pre + length k + length ds \<le> length a"
    by linarith
  then show ?thesis
  proof cases
    case inPre
    have "pre = take (length pre) ?s" by simp
    also have "\<dots> = take (length pre) (a @ c @ b)" by (simp only: eq)
    also have "\<dots> = a @ c @ take (length pre - length a - length c) b"
      using inPre len by simp
    finally have "hasDigitRun (length ds) pre"
      using hasDigitRun_iff [of "length ds" pre] len c by blast
    then show ?thesis using pre by simp
  next
    case onWords
    define j where "j = max (length a) (length pre)"
    have j1: "j - length pre < length k" and j2: "j - length a < length c"
      using onWords len positive unfolding j_def by (auto simp: max_def)
    have "?s ! (length pre + (j - length pre)) = k ! (j - length pre)" by (rule nth_k [OF j1])
    moreover have "(a @ c @ b) ! (length a + (j - length a)) = c ! (j - length a)"
      by (rule nth_c [OF j2])
    moreover have "length pre + (j - length pre) = j" "length a + (j - length a) = j"
      unfolding j_def by simp_all
    ultimately have "k ! (j - length pre) = c ! (j - length a)"
      using eq by simp
    moreover have "k ! (j - length pre) \<in> set k" using j1 by simp
    moreover have "c ! (j - length a) \<in> set c" using j2 by simp
    ultimately show ?thesis using k(2) c by metis
  next
    case exact
    then have "length (pre @ k) = length a" by simp
    moreover have "(pre @ k) @ (ds @ post) = a @ (c @ b)" using eq by simp
    ultimately have "ds @ post = c @ b" by (metis append_eq_append_conv)
    then show ?thesis using len by (metis append_eq_append_conv)
  next
    case inside
    define i where "i = length a - 1 - (length pre + length k)"
    have i: "i < length ds" and pos: "length pre + length k + i = length a - 1"
      using inside unfolding i_def by simp_all
    have ne: "a \<noteq> []" using inside by auto
    have "last a = a ! (length a - 1)" using ne by (rule last_conv_nth)
    also have "\<dots> = (a @ c @ b) ! (length a - 1)" using ne by (simp add: nth_a)
    also have "\<dots> = ?s ! (length pre + length k + i)" by (simp only: eq pos)
    also have "\<dots> = ds ! i" by (rule nth_ds [OF i])
    finally have "last a \<in> set ds" using i by simp
    then show ?thesis using a ne ds by simp
  next
    case inPost
    have "post = drop (length pre + length k + length ds) ?s" by simp
    also have "\<dots> = drop (length pre + length k + length ds) (a @ c @ b)" by (simp only: eq)
    also have "\<dots> = drop (length pre + length k + length ds) a @ c @ b"
      using inPost by simp
    finally have "hasDigitRun (length ds) post"
      using hasDigitRun_iff [of "length ds" post] len c by blast
    then show ?thesis using post by simp
  qed
qed

lemma extractCodeScript_yourCodeIs:
  assumes "\<not> hasDigitRun 6 pre" and "\<not> hasDigitRun 6 post"
  shows "extractCodeScript (bodyDocument (pre @ js ''Your code is 482913'' @ post)) = Some (js ''482913'')"
proof -
  let ?body = "pre @ js ''Your code is 482913'' @ post"
  let ?p5 = "caseless (js ''Your code is'') @ Repeat colonOrSpace 0 None True # sixDigits"
  have p5: "?p5 \<in> set codePatterns" by (simp add: codePatterns_def)
  have "regex_search ?p5 [] ?body \<noteq> None"
    using regex_search_finds [of ?p5 pre "[]" "js ''Your code is 482913'' @ post"]
          yourCodeIs_matches [of "rev pre @ []" post]
    by simp
  then have m5: "js_match ?p5 ?body \<noteq> None"
    by (auto simp: js_match_def)
  have "extractCode_loop codePatterns ?body \<noteq> None"
  proof
    assume none: "extractCode_loop codePatterns ?body = None"
    have "\<And>q whole. q \<in> set codePatterns \<Longrightarrow> js_match q ?body \<noteq> Some (whole, None)"
      using codePattern_captures_digits by fastforce
    from extractCode_loop_None [OF this none p5] m5 show False by simp
  qed
  then obtain c where c: "extractCode_loop codePatterns ?body = Some c"
    by auto
  from extractCode_loop_Some [OF c] obtain p whole
    where "p \<in> set codePatterns" "js_match p ?body = Some (whole, Some c)"
    by blast
  from codePattern_capture_after_nondigit [OF this] obtain a b
    where ab: "?body = a @ c @ b" "length c = 6" "digitsAhead 6 c"
      "a = [] \<or> \<not> member_of digit (last a)"
    by blast
  have six: "length (js ''482913'') = 6" by (simp add: js_def)
  have "c = js ''482913''"
  proof (rule digit_run_located [of _ pre post "js ''Your code is ''" a _ b])
    show "\<not> hasDigitRun (length (js ''482913'')) pre" "\<not> hasDigitRun (length (js ''482913'')) post"
      using assms by (simp_all only: six not_False_eq_True)
    show "js ''Your code is '' \<noteq> []" "\<forall>x\<in>set (js ''Your code is ''). \<not> member_of digit x"
      "\<forall>x\<in>set (js ''482913''). member_of digit x"
      by (simp_all add: js_def digit_def)
    show "pre @ js ''Your code is '' @ js ''482913'' @ post = a @ c @ b"
      using ab(1) by (simp add: js_def)
    show "length c = length (js ''482913'')" using ab(2) by (simp only: six)
    show "\<forall>x\<in>set c. member_of digit x" using digitsAhead_all [OF ab(2,3)] .
    show "a = [] \<or> \<not> member_of digit (last a)" by (rule ab(4))
  qed
  then show ?thesis using c by (simp add: extractCodeScript_def bodyDocument_def)
qed

text \<open>
  C9. (1) For the body "Your code is 482913", and for every body that contains it with
  no six digits in a row before it and none after it, the extraction script returns
  "482913". (2) For every body with no
  six digits in a row it returns \<open>null\<close>. (3) Whatever it returns besides \<open>null\<close> is
  six digits, so never the empty string, and the script itself cannot throw (it is a total
  function of the page text). (4) The patterns are tried in the order of
  \<open>codePatterns\<close>, from "verification code: NNNNNN" down to the bare six digits, and
  the capture of the first pattern that matches is the result. (5) The method returns what
  the script computes whenever \<open>page.evaluate\<close> does not reject.
\<close>

theorem extractVerificationCode_behaviour:
  "extractCodeScript (bodyDocument (js ''Your code is 482913'')) = Some (js ''482913'')
   \<and> (\<forall>pre post. \<not> hasDigitRun 6 pre \<and> \<not> hasDigitRun 6 post \<longrightarrow>
         extractCodeScript (bodyDocument (pre @ js ''Your code is 482913'' @ post)) = Some (js ''482913''))
   \<and> (\<forall>d :: dom. \<not> hasDigitRun 6 (bodyInnerText d) \<longrightarrow> extractCodeScript d = None)
   \<and> (\<forall>d c. extractCodeScript d = Some c \<longrightarrow> length c = 6 \<and> digitsAhead 6 c)
   \<and> (\<forall>(d :: dom) i whole c. i < length codePatterns
         \<and> (\<forall>j<i. js_match (codePatterns ! j) (bodyInnerText d) = None)
         \<and> js_match (codePatterns ! i) (bodyInnerText d) = Some (whole, c) \<longrightarrow>
         extractCodeScript d = c)
   \<and> hd codePatterns = caseless (js ''verification code'') @ Repeat colonOrSpace 1 None True # sixDigits
   \<and> last codePatterns = WordBoundary # sixDigits @ [WordBoundary]
   \<and> (\<forall>(b :: 'p browser) p1 (w :: 'p world). rejects b (page w) = (None, p1) \<longrightarrow>
         extractVerificationCode b w = (Inr (extractCodeScript (document b p1)), w\<lparr>page := p1\<rparr>))"
proof (intro conjI allI impI)
  show "extractCodeScript (bodyDocument (js ''Your code is 482913'')) = Some (js ''482913'')"
    using extractCodeScript_yourCodeIs [of "[]" "[]"] by (simp add: eval_nat_numeral)
next
  fix pre post
  assume "\<not> hasDigitRun 6 pre \<and> \<not> hasDigitRun 6 post"
  then show "extractCodeScript (bodyDocument (pre @ js ''Your code is 482913'' @ post)) = Some (js ''482913'')"
    using extractCodeScript_yourCodeIs by blast
next
  fix d :: dom
  assume "\<not> hasDigitRun 6 (bodyInnerText d)"
  then have "\<And>p. p \<in> set codePatterns \<Longrightarrow> js_match p (bodyInnerText d) = None"
    using js_match_needs_digits codePatterns_need_digits by blast
  then show "extractCodeScript d = None"
    unfolding extractCodeScript_def by (rule extractCode_loop_no_match)
next
  fix d c
  assume "extractCodeScript d = Some c"
  from extractCodeScript_six_digits [OF this] show "length c = 6" "digitsAhead 6 c" by auto
next
  fix d :: dom and i whole c
  assume "i < length codePatterns
         \<and> (\<forall>j<i. js_match (codePatterns ! j) (bodyInnerText d) = None)
         \<and> js_match (codePatterns ! i) (bodyInnerText d) = Some (whole, c)"
  then show "extractCodeScript d = c"
    unfolding extractCodeScript_def using extractCode_loop_first_match by blast
next
  show "hd codePatterns = caseless (js ''verification code'') @ Repeat colonOrSpace 1 None True # sixDigits"
    by (simp add: codePatterns_def)
  show "last codePatterns = WordBoundary # sixDigits @ [WordBoundary]"
    by (simp add: codePatterns_def)
next
  fix b :: "'p browser" and p1 and w :: "'p world"
  assume "rejects b (page w) = (None, p1)"
  then show "extractVerificationCode b w = (Inr (extractCodeScript (document b p1)), w\<lparr>page := p1\<rparr>)"
    by (simp add: extractVerificationCode_def driver_def page_evaluate_def)
qed

theorem extractVerificationCode_behaviour_witness:
  "extractCodeScript (bodyDocument (js ''Ref 77. Your code is 482913 (10 min)'')) = Some (js ''482913'')
   \<and> extractCodeScript (bodyDocument (js ''Order 12345 shipped'')) = None"
proof -
  have a: "\<not> hasDigitRun 6 (js ''Ref 77. '') \<and> \<not> hasDigitRun 6 (js '' (10 min)'')"
    by (simp add: js_def digit_def eval_nat_numeral)
  have b: "\<not> hasDigitRun 6 (bodyInnerText (bodyDocument (js ''Order 12345 shipped'')))"
    by (simp add: bodyDocument_def js_def digit_def eval_nat_numeral)
  have c: "js ''Ref 77. '' @ js ''Your code is 482913'' @ js '' (10 min)''
             = js ''Ref 77. Your code is 482913 (10 min)''"
    by (simp add: js_def)
  show ?thesis
    using extractVerificationCode_behaviour [where ?'p = unit, THEN conjunct2, THEN conjunct1, rule_format, OF a]
          extractVerificationCode_behaviour [where ?'p = unit, THEN conjunct2, THEN conjunct2, THEN conjunct1, rule_format, OF b]
          c
    by simp
qed


subsection \<open>Address acquisition\<close>

lemma getEmailAddress_try_returns:
  assumes "getEmailAddress_try b waitForFunction w = (Inr address, w')"
  shows "address \<noteq> [] \<and> (\<exists>p. emailScript (document b p) = Some address)"
proof -
  let ?w0 = "sleep 2000 w"
  obtain r1 w1 where e1: "driver (page_evaluate b (\<lambda>d. length (querySelectorAll d (js ''input'')))) ?w0 = (r1, w1)"
    by (cases "driver (page_evaluate b (\<lambda>d. length (querySelectorAll d (js ''input'')))) ?w0")
  then obtain n where r1: "r1 = Inr n"
    using assms by (cases r1) (auto simp: getEmailAddress_try_def andThen_def)
  let ?w2 = "logger (InputsFound n) w1"
  obtain r3 w3 where e3: "driver waitForFunction ?w2 = (r3, w3)"
    by (cases "driver waitForFunction ?w2")
  define w4 where "w4 = (case r3 of Inl _ \<Rightarrow> logger WaitTimedOut w3 | Inr _ \<Rightarrow> w3)"
  obtain r5 w5 where e5: "driver (page_evaluate b emailScript) w4 = (r5, w5)"
    by (cases "driver (page_evaluate b emailScript) w4")
  have chain: "getEmailAddress_try b waitForFunction w =
      (case r5 of
         Inl e \<Rightarrow> (Inl e, w5)
       | Inr email \<Rightarrow>
           (case email of
              Some address \<Rightarrow>
                if address \<noteq> [] then (Inr address, logger (EmailObtained address) w5)
                else reportNoEmail b w5
            | None \<Rightarrow> reportNoEmail b w5))"
    using e1 r1 e3 e5
    by (cases r3; cases r5)
       (simp_all add: getEmailAddress_try_def andThen_def w4_def split: option.splits)
  have no: "fst (reportNoEmail b v) \<noteq> Inr address" for v
    by (auto simp: reportNoEmail_def andThen_def split: prod.splits sum.splits)
  from assms chain obtain email where r5: "r5 = Inr email"
    by (cases r5) auto
  then have "email = Some address \<and> address \<noteq> []"
    using assms chain no [of w5]
    by (cases email) (auto split: if_splits)
  moreover have "\<exists>p. email = emailScript (document b p)"
    using e5 r5 by (auto simp: driver_def page_evaluate_def split: prod.splits option.splits)
  ultimately show ?thesis by metis
qed

lemma getEmailAddress_returns:
  assumes "fst (getEmailAddress b waitForFunction w) = Inr address"
  shows "address \<noteq> [] \<and> (\<exists>p. emailScript (document b p) = Some address)"
proof -
  obtain r w1 where t: "getEmailAddress_try b waitForFunction w = (r, w1)"
    by (cases "getEmailAddress_try b waitForFunction w")
  then have "r = Inr address"
    using assms by (cases r) (auto simp: getEmailAddress_def split: prod.splits sum.splits)
  then show ?thesis using t getEmailAddress_try_returns by blast
qed

text \<open>The two loops of the script find the first element that passes their test.\<close>

lemma emailInput_loop_first:
  "inputs = pre @ input # post \<Longrightarrow> \<forall>x\<in>set pre. \<not> holdsEmail x \<Longrightarrow> holdsEmail input
     \<Longrightarrow> emailInput_loop inputs = Some (js_trim (inputValue input))"
  by (induction pre arbitrary: inputs) (auto simp: holdsEmail_def)

lemma emailInput_loop_none:
  "\<forall>x\<in>set inputs. \<not> holdsEmail x \<Longrightarrow> emailInput_loop inputs = None"
  by (induction inputs) (auto simp: holdsEmail_def)

lemma firstNonPlaceholder_first:
  "matches = pre @ email # post \<Longrightarrow> \<forall>x\<in>set pre. placeholder x \<Longrightarrow> \<not> placeholder email
     \<Longrightarrow> firstNonPlaceholder matches = Some email"
  by (induction pre arbitrary: matches) (auto simp: placeholder_def)

lemma firstNonPlaceholder_none:
  "\<forall>x\<in>set matches. placeholder x \<Longrightarrow> firstNonPlaceholder matches = None"
  by (induction matches) (auto simp: placeholder_def)

text \<open>The script never yields the empty string.\<close>

lemma regex_search_runs:
  "regex_search ns behind rest = Some (start, b', r', g')
     \<Longrightarrow> \<exists>skipped ahead. rest = skipped @ ahead \<and> start = length behind + length skipped
           \<and> regex_run ns (rev skipped @ behind) ahead NoGroup = Some (b', r', g')"
proof (induction rest arbitrary: behind)
  case Nil
  then have "regex_run ns behind [] NoGroup = Some (b', r', g')" "start = length behind"
    by (auto split: option.splits)
  then show ?case by simp
next
  case (Cons x xs)
  show ?case
  proof (cases "regex_run ns behind (x # xs) NoGroup")
    case (Some r)
    then have "regex_run ns behind (x # xs) NoGroup = Some (b', r', g')" "start = length behind"
      using Cons.prems by auto
    then show ?thesis
      by (intro exI [of _ "[]"] exI [of _ "x # xs"]) simp
  next
    case None
    then have "regex_search ns (x # behind) xs = Some (start, b', r', g')"
      using Cons.prems by simp
    from Cons.IH [OF this] obtain skipped ahead where
      "xs = skipped @ ahead" "start = length (x # behind) + length skipped"
      "regex_run ns (rev skipped @ x # behind) ahead NoGroup = Some (b', r', g')"
      by blast
    then show ?thesis
      by (intro exI [of _ "x # skipped"] exI [of _ ahead]) simp
  qed
qed

lemma emailShape_consumes:
  assumes "regex_run emailShape behind rest g = Some (b', r', g')"
  shows "length behind < length b'"
proof -
  from assms have "regex_run (Repeat (Among [(97, 122), (65, 90), (48, 57), (46, 46), (95, 95), (37, 37), (43, 43), (45, 45)])
        1 None True # tl emailShape) behind rest g = Some (b', r', g')"
    by (simp add: emailShape_def)
  from regex_run_Repeat [OF this] obtain x xs q where
    "regex_run q (x # behind) xs g = Some (b', r', g')"
    by auto
  from regex_run_consumes [OF this] show ?thesis by auto
qed

lemma emailShape_token_nonempty:
  assumes "regex_search emailShape behind rest = Some (start, b', r', g')"
  shows "start < length b'"
proof -
  from regex_search_runs [OF assms] obtain skipped ahead where
    "start = length behind + length skipped"
    "regex_run emailShape (rev skipped @ behind) ahead NoGroup = Some (b', r', g')"
    by blast
  then show ?thesis using emailShape_consumes [of "rev skipped @ behind" ahead NoGroup b' r' g'] by simp
qed

lemma js_matchAll_from_nonempty:
  "[] \<notin> set (js_matchAll_from emailShape behind rest)"
proof (induction emailShape behind rest rule: js_matchAll_from.induct)
  case (1 behind rest)
  show ?case
  proof (cases "regex_search emailShape behind rest")
    case None
    then show ?thesis by (subst js_matchAll_from.simps) simp
  next
    case (Some m)
    obtain start b' r' g' where m: "m = (start, b', r', g')" by (cases m)
    have len: "start < length b'"
      using emailShape_token_nonempty Some m by blast
    then have "rev (take (length b' - start) b') \<noteq> []" by auto
    moreover have "[] \<notin> set (js_matchAll_from emailShape b' r')"
      using "1.hyps"(2) [OF Some m [symmetric] refl refl] len by simp
    ultimately show ?thesis
      using Some m len by (subst js_matchAll_from.simps) auto
  qed
qed

lemma emailInput_loop_nonempty: "emailInput_loop inputs \<noteq> Some []"
proof (induction inputs)
  case Nil
  show ?case by simp
next
  case (Cons input inputs)
  have none: "js_match wholeEmail [] = None"
    by (simp add: js_match_def wholeEmail_def emailShape_def regex_run.simps(3))
  show ?case
  proof (cases "js_trim (inputValue input) = []")
    case True
    then show ?thesis using Cons none by simp
  next
    case False
    then show ?thesis using Cons by simp
  qed
qed

lemma firstNonPlaceholder_member: "firstNonPlaceholder matches = Some email \<Longrightarrow> email \<in> set matches"
  by (induction matches) (auto split: if_splits)

lemma emailScript_nonempty: "emailScript d \<noteq> Some []"
proof
  assume empty: "emailScript d = Some []"
  have tokens: "[] \<notin> set (js_matchAll emailShape (bodyInnerText d))"
    unfolding js_matchAll_def by (rule js_matchAll_from_nonempty)
  show False
  proof (cases "emailInput_loop (querySelectorAll d (js ''input''))")
    case (Some v)
    then show ?thesis using empty emailInput_loop_nonempty [of "querySelectorAll d (js ''input'')"]
      by (simp add: emailScript_def)
  next
    case None
    show ?thesis
    proof (cases "js_matchAll emailShape (bodyInnerText d)")
      case Nil
      then show ?thesis using empty None by (simp add: emailScript_def)
    next
      case (Cons m ms)
      show ?thesis
      proof (cases "firstNonPlaceholder (m # ms)")
        case none: None
        then show ?thesis using empty None Cons tokens by (simp add: emailScript_def)
      next
        case (Some email)
        from firstNonPlaceholder_member [OF this] have "email \<in> set (m # ms)" .
        then show ?thesis using empty None Cons tokens Some by (auto simp: emailScript_def)
      qed
    qed
  qed
qed


text \<open>The method, along the path on which no page call is rejected.\<close>

lemma getEmailAddress_try_resolves:
  fixes b :: "'p browser" and w :: "'p world"
  assumes "rejects b (page w) = (None, p1)" and "waitForFunction p1 = (r, p2)"
    and "rejects b p2 = (None, p3)"
  shows "\<exists>v. page v = p3
           \<and> getEmailAddress_try b waitForFunction w
               = (case emailScript (document b p3) of
                    Some address \<Rightarrow>
                      if address \<noteq> [] then (Inr address, logger (EmailObtained address) v)
                      else reportNoEmail b v
                  | None \<Rightarrow> reportNoEmail b v)"
proof (cases r)
  case (Inl e)
  let ?v = "(logger WaitTimedOut ((logger (InputsFound (length (querySelectorAll (document b p1) (js ''input''))))
               ((sleep 2000 w)\<lparr>page := p1\<rparr>))\<lparr>page := p2\<rparr>))\<lparr>page := p3\<rparr>"
  have "page ?v = p3" by simp
  moreover have "getEmailAddress_try b waitForFunction w
               = (case emailScript (document b p3) of
                    Some address \<Rightarrow>
                      if address \<noteq> [] then (Inr address, logger (EmailObtained address) ?v)
                      else reportNoEmail b ?v
                  | None \<Rightarrow> reportNoEmail b ?v)"
    using assms Inl
    by (simp add: getEmailAddress_try_def andThen_def driver_def page_evaluate_def sleep_def
          logger_def split: option.splits)
  ultimately show ?thesis by blast
next
  case (Inr u)
  let ?v = "((logger (InputsFound (length (querySelectorAll (document b p1) (js ''input''))))
               ((sleep 2000 w)\<lparr>page := p1\<rparr>))\<lparr>page := p2\<rparr>)\<lparr>page := p3\<rparr>"
  have "page ?v = p3" by simp
  moreover have "getEmailAddress_try b waitForFunction w
               = (case emailScript (document b p3) of
                    Some address \<Rightarrow>
                      if address \<noteq> [] then (Inr address, logger (EmailObtained address) ?v)
                      else reportNoEmail b ?v
                  | None \<Rightarrow> reportNoEmail b ?v)"
    using assms Inr
    by (simp add: getEmailAddress_try_def andThen_def driver_def page_evaluate_def sleep_def
          logger_def split: option.splits)
  ultimately show ?thesis by blast
qed

lemma getEmailAddress_resolves:
  fixes b :: "'p browser" and w :: "'p world"
  assumes "rejects b (page w) = (None, p1)" and "waitForFunction p1 = (r, p2)"
    and "rejects b p2 = (None, p3)" and "emailScript (document b p3) = Some address"
  shows "fst (getEmailAddress b waitForFunction w) = Inr address"
proof -
  have "address \<noteq> []" using assms(4) emailScript_nonempty [of "document b p3"] by auto
  then show ?thesis
    using getEmailAddress_try_resolves [where waitForFunction = waitForFunction, OF assms(1-3)] assms(4)
    by (auto simp: getEmailAddress_def)
qed

lemma reportNoEmail_throws: "\<exists>e. fst (reportNoEmail b v) = Inl e"
  by (cases "driver (screenshot b (js ''debug-no-email.png'')) v")
     (auto simp: reportNoEmail_def andThen_def split: sum.splits)

lemma getEmailAddress_rethrows:
  "fst (getEmailAddress_try b waitForFunction w) = Inl e
     \<Longrightarrow> \<exists>e'. fst (getEmailAddress b waitForFunction w) = Inl e'"
  by (cases "getEmailAddress_try b waitForFunction w")
     (auto simp: getEmailAddress_def split: prod.splits sum.splits)

lemma getEmailAddress_fails:
  fixes b :: "'p browser" and w :: "'p world"
  assumes "rejects b (page w) = (None, p1)" and "waitForFunction p1 = (r, p2)"
    and "rejects b p2 = (None, p3)" and "emailScript (document b p3) = None"
  shows "\<exists>e. fst (getEmailAddress b waitForFunction w) = Inl e"
proof -
  from getEmailAddress_try_resolves [where waitForFunction = waitForFunction, OF assms(1-3)] assms(4) obtain v where
    "getEmailAddress_try b waitForFunction w = reportNoEmail b v"
    by auto
  then obtain e where "fst (getEmailAddress_try b waitForFunction w) = Inl e"
    using reportNoEmail_throws [of b v] by auto
  then show ?thesis by (rule getEmailAddress_rethrows)
qed

lemma getEmailAddress_address_not_found:
  fixes b :: "'p browser" and w :: "'p world"
  assumes "rejects b (page w) = (None, p1)" and "waitForFunction p1 = (r, p2)"
    and "rejects b p2 = (None, p3)" and "emailScript (document b p3) = None"
    and "screenshot b (js ''debug-no-email.png'') p3 = (Inr (), p4)"
    and "screenshot b (js ''debug-tempmail-error.png'') p4 = (Inr (), p5)"
  shows "fst (getEmailAddress b waitForFunction w) = Inl addressNotFound"
proof -
  from getEmailAddress_try_resolves [where waitForFunction = waitForFunction, OF assms(1-3)] assms(4) obtain v where
    v: "page v = p3" "getEmailAddress_try b waitForFunction w = reportNoEmail b v"
    by auto
  have "reportNoEmail b v = (Inl addressNotFound, logger EmailNotFound (v\<lparr>page := p4\<rparr>))"
    using v(1) assms(5) by (simp add: reportNoEmail_def andThen_def driver_def)
  then show ?thesis
    using v(2) assms(6)
    by (simp add: getEmailAddress_def driver_def logger_def)
qed

lemma getEmailAddress_rejected:
  fixes b :: "'p browser" and w :: "'p world"
  shows "rejects b (page w) = (Some e, p1) \<Longrightarrow> \<exists>e'. fst (getEmailAddress b waitForFunction w) = Inl e'"
    and "rejects b (page w) = (None, p1) \<Longrightarrow> waitForFunction p1 = (r, p2)
           \<Longrightarrow> rejects b p2 = (Some e, p3) \<Longrightarrow> \<exists>e'. fst (getEmailAddress b waitForFunction w) = Inl e'"
proof -
  assume "rejects b (page w) = (Some e, p1)"
  then have "fst (getEmailAddress_try b waitForFunction w) = Inl e"
    by (simp add: getEmailAddress_try_def andThen_def driver_def page_evaluate_def sleep_def)
  then show "\<exists>e'. fst (getEmailAddress b waitForFunction w) = Inl e'"
    by (rule getEmailAddress_rethrows)
next
  assume "rejects b (page w) = (None, p1)" "waitForFunction p1 = (r, p2)" "rejects b p2 = (Some e, p3)"
  then have "fst (getEmailAddress_try b waitForFunction w) = Inl e"
    by (cases r)
       (simp_all add: getEmailAddress_try_def andThen_def driver_def page_evaluate_def sleep_def
          logger_def)
  then show "\<exists>e'. fst (getEmailAddress b waitForFunction w) = Inl e'"
    by (rule getEmailAddress_rethrows)
qed

text \<open>
  C7 as stated fails: on a page with no input whose only email-shaped token is the
  placeholder "test@example.com", neither route yields a token free of the placeholder
  patterns, yet \<open>getEmailAddress\<close> returns that token (\<open>return matches[0]\<close>).
\<close>

theorem getEmailAddress_returns_placeholder:
  "emailInput_loop (querySelectorAll (bodyDocument (js ''Contact test@example.com'')) (js ''input'')) = None
   \<and> firstNonPlaceholder (js_matchAll emailShape (bodyInnerText (bodyDocument (js ''Contact test@example.com'')))) = None
   \<and> fst (getEmailAddress (staticBrowser None (bodyDocument (js ''Contact test@example.com'')) [])
              waitResolves world0)
       = Inr (js ''test@example.com'')"
  by (simp add: getEmailAddress_def getEmailAddress_try_def andThen_def driver_def page_evaluate_def
        staticBrowser_def world0_def waitResolves_def bodyDocument_def emailScript_def
        js_matchAll_def js_matchAll_from.simps emailShape_def regex_run.simps(3) js_def
        sleep_def logger_def)

text \<open>
  C7, amended. The script: the first input, in document order, whose value is non-empty,
  contains "@" and "." and is email-shaped after trimming gives the result, its trimmed
  value; when no input does, the result is the first email-shaped token of the page text
  that contains neither "example" nor "test@", and when every token does, the first token
  all the same; only when no input qualifies and the page text holds no email-shaped
  token at all is the result \<open>null\<close>. The method: when neither evaluation of the page
  is rejected, \<open>getEmailAddress\<close> returns the address the script gives, and when the
  script gives \<open>null\<close> it throws rather than returning a value, the address-not-found
  error when its two screenshots succeed; a rejected evaluation makes it throw as well.
  Whatever it returns is a non-empty value the script produced.
\<close>

theorem getEmailAddress_resolution:
  fixes b :: "'p browser" and w :: "'p world"
  shows
    "(\<forall>(d :: dom) pre input post. querySelectorAll d (js ''input'') = pre @ input # post
         \<and> (\<forall>x\<in>set pre. \<not> holdsEmail x) \<and> holdsEmail input \<longrightarrow>
         emailScript d = Some (js_trim (inputValue input)))
     \<and> (\<forall>(d :: dom) pre email post. (\<forall>x\<in>set (querySelectorAll d (js ''input'')). \<not> holdsEmail x)
         \<and> js_matchAll emailShape (bodyInnerText d) = pre @ email # post
         \<and> (\<forall>x\<in>set pre. placeholder x) \<and> \<not> placeholder email \<longrightarrow>
         emailScript d = Some email)
     \<and> (\<forall>(d :: dom) first others. (\<forall>x\<in>set (querySelectorAll d (js ''input'')). \<not> holdsEmail x)
         \<and> js_matchAll emailShape (bodyInnerText d) = first # others
         \<and> (\<forall>x\<in>set (first # others). placeholder x) \<longrightarrow>
         emailScript d = Some first)
     \<and> (\<forall>d :: dom. (\<forall>x\<in>set (querySelectorAll d (js ''input'')). \<not> holdsEmail x)
         \<and> js_matchAll emailShape (bodyInnerText d) = [] \<longrightarrow>
         emailScript d = None)
     \<and> (\<forall>p1 r p2 p3 address. rejects b (page w) = (None, p1) \<and> waitForFunction p1 = (r, p2)
         \<and> rejects b p2 = (None, p3) \<and> emailScript (document b p3) = Some address \<longrightarrow>
         fst (getEmailAddress b waitForFunction w) = Inr address)
     \<and> (\<forall>p1 r p2 p3. rejects b (page w) = (None, p1) \<and> waitForFunction p1 = (r, p2)
         \<and> rejects b p2 = (None, p3) \<and> emailScript (document b p3) = None \<longrightarrow>
         (\<exists>e. fst (getEmailAddress b waitForFunction w) = Inl e))
     \<and> (\<forall>p1 r p2 p3 p4 p5. rejects b (page w) = (None, p1) \<and> waitForFunction p1 = (r, p2)
         \<and> rejects b p2 = (None, p3) \<and> emailScript (document b p3) = None
         \<and> screenshot b (js ''debug-no-email.png'') p3 = (Inr (), p4)
         \<and> screenshot b (js ''debug-tempmail-error.png'') p4 = (Inr (), p5) \<longrightarrow>
         fst (getEmailAddress b waitForFunction w) = Inl addressNotFound)
     \<and> (\<forall>e p1. rejects b (page w) = (Some e, p1) \<longrightarrow>
         (\<exists>e'. fst (getEmailAddress b waitForFunction w) = Inl e'))
     \<and> (\<forall>e p1 r p2 p3. rejects b (page w) = (None, p1) \<and> waitForFunction p1 = (r, p2)
         \<and> rejects b p2 = (Some e, p3) \<longrightarrow>
         (\<exists>e'. fst (getEmailAddress b waitForFunction w) = Inl e'))
     \<and> ((\<forall>p. emailScript (document b p) = None) \<longrightarrow>
         (\<exists>e. fst (getEmailAddress b waitForFunction w) = Inl e))
     \<and> (\<forall>address. fst (getEmailAddress b waitForFunction w) = Inr address \<longrightarrow>
         address \<noteq> [] \<and> (\<exists>p. emailScript (document b p) = Some address))"
proof -
  have s1: "emailScript d = Some (js_trim (inputValue input))"
    if "querySelectorAll d (js ''input'') = pre @ input # post
         \<and> (\<forall>x\<in>set pre. \<not> holdsEmail x) \<and> holdsEmail input"
    for d :: dom and pre input post
    using that emailInput_loop_first [of "querySelectorAll d (js ''input'')" pre input post]
    by (simp add: emailScript_def)
  have s2: "emailScript d = Some email"
    if "(\<forall>x\<in>set (querySelectorAll d (js ''input'')). \<not> holdsEmail x)
         \<and> js_matchAll emailShape (bodyInnerText d) = pre @ email # post
         \<and> (\<forall>x\<in>set pre. placeholder x) \<and> \<not> placeholder email"
    for d :: dom and pre email post
  proof -
    have "emailInput_loop (querySelectorAll d (js ''input'')) = None"
      using that by (intro emailInput_loop_none) simp
    moreover have "firstNonPlaceholder (js_matchAll emailShape (bodyInnerText d)) = Some email"
      using that by (intro firstNonPlaceholder_first [of _ pre email post]) simp_all
    ultimately show ?thesis
      using that by (cases pre) (simp_all add: emailScript_def)
  qed
  have s3: "emailScript d = Some first"
    if "(\<forall>x\<in>set (querySelectorAll d (js ''input'')). \<not> holdsEmail x)
         \<and> js_matchAll emailShape (bodyInnerText d) = first # others
         \<and> (\<forall>x\<in>set (first # others). placeholder x)"
    for d :: dom and first others
  proof -
    have "emailInput_loop (querySelectorAll d (js ''input'')) = None"
      using that by (intro emailInput_loop_none) simp
    moreover have "firstNonPlaceholder (first # others) = None"
      using that by (intro firstNonPlaceholder_none) simp
    ultimately show ?thesis
      using that by (simp add: emailScript_def)
  qed
  have s4: "emailScript d = None"
    if "(\<forall>x\<in>set (querySelectorAll d (js ''input'')). \<not> holdsEmail x)
         \<and> js_matchAll emailShape (bodyInnerText d) = []"
    for d :: dom
  proof -
    have "emailInput_loop (querySelectorAll d (js ''input'')) = None"
      using that by (intro emailInput_loop_none) simp
    then show ?thesis using that by (simp add: emailScript_def)
  qed
  have m1: "fst (getEmailAddress b waitForFunction w) = Inr address"
    if "rejects b (page w) = (None, p1) \<and> waitForFunction p1 = (r, p2)
         \<and> rejects b p2 = (None, p3) \<and> emailScript (document b p3) = Some address"
    for p1 r p2 p3 address
    using that getEmailAddress_resolves [where waitForFunction = waitForFunction] by blast
  have m2: "\<exists>e. fst (getEmailAddress b waitForFunction w) = Inl e"
    if "rejects b (page w) = (None, p1) \<and> waitForFunction p1 = (r, p2)
         \<and> rejects b p2 = (None, p3) \<and> emailScript (document b p3) = None"
    for p1 r p2 p3
    using that getEmailAddress_fails [where waitForFunction = waitForFunction] by blast
  have m3: "fst (getEmailAddress b waitForFunction w) = Inl addressNotFound"
    if "rejects b (page w) = (None, p1) \<and> waitForFunction p1 = (r, p2)
         \<and> rejects b p2 = (None, p3) \<and> emailScript (document b p3) = None
         \<and> screenshot b (js ''debug-no-email.png'') p3 = (Inr (), p4)
         \<and> screenshot b (js ''debug-tempmail-error.png'') p4 = (Inr (), p5)"
    for p1 r p2 p3 p4 p5
    using that getEmailAddress_address_not_found [where waitForFunction = waitForFunction] by blast
  have m4: "\<exists>e'. fst (getEmailAddress b waitForFunction w) = Inl e'"
    if "rejects b (page w) = (Some e, p1)" for e p1
    using that by (rule getEmailAddress_rejected(1))
  have m5: "\<exists>e'. fst (getEmailAddress b waitForFunction w) = Inl e'"
    if "rejects b (page w) = (None, p1) \<and> waitForFunction p1 = (r, p2) \<and> rejects b p2 = (Some e, p3)"
    for e p1 r p2 p3
    using that getEmailAddress_rejected(2) [where waitForFunction = waitForFunction] by blast
  have m6: "\<exists>e. fst (getEmailAddress b waitForFunction w) = Inl e"
    if none: "\<forall>p. emailScript (document b p) = None"
  proof (cases "fst (getEmailAddress b waitForFunction w)")
    case (Inl e)
    then show ?thesis by blast
  next
    case (Inr address)
    from getEmailAddress_returns [OF this] none show ?thesis by simp
  qed
  have m7: "address \<noteq> [] \<and> (\<exists>p. emailScript (document b p) = Some address)"
    if "fst (getEmailAddress b waitForFunction w) = Inr address" for address
    using that by (rule getEmailAddress_returns)
  show ?thesis
  proof (intro conjI allI impI)
    fix d :: dom and pre input post
    assume "querySelectorAll d (js ''input'') = pre @ input # post
         \<and> (\<forall>x\<in>set pre. \<not> holdsEmail x) \<and> holdsEmail input"
    then show "emailScript d = Some (js_trim (inputValue input))" by (rule s1)
  next
    fix d :: dom and pre email post
    assume "(\<forall>x\<in>set (querySelectorAll d (js ''input'')). \<not> holdsEmail x)
         \<and> js_matchAll emailShape (bodyInnerText d) = pre @ email # post
         \<and> (\<forall>x\<in>set pre. placeholder x) \<and> \<not> placeholder email"
    then show "emailScript d = Some email" by (rule s2)
  next
    fix d :: dom and first others
    assume "(\<forall>x\<in>set (querySelectorAll d (js ''input'')). \<not> holdsEmail x)
         \<and> js_matchAll emailShape (bodyInnerText d) = first # others
         \<and> (\<forall>x\<in>set (first # others). placeholder x)"
    then show "emailScript d = Some first" by (rule s3)
  next
    fix d :: dom
    assume "(\<forall>x\<in>set (querySelectorAll d (js ''input'')). \<not> holdsEmail x)
         \<and> js_matchAll emailShape (bodyInnerText d) = []"
    then show "emailScript d = None" by (rule s4)
  next
    fix p1 r p2 p3 address
    assume "rejects b (page w) = (None, p1) \<and> waitForFunction p1 = (r, p2)
         \<and> rejects b p2 = (None, p3) \<and> emailScript (document b p3) = Some address"
    then show "fst (getEmailAddress b waitForFunction w) = Inr address" by (rule m1)
  next
    fix p1 r p2 p3
    assume "rejects b (page w) = (None, p1) \<and> waitForFunction p1 = (r, p2)
         \<and> rejects b p2 = (None, p3) \<and> emailScript (document b p3) = None"
    then show "\<exists>e. fst (getEmailAddress b waitForFunction w) = Inl e" by (rule m2)
  next
    fix p1 r p2 p3 p4 p5
    assume "rejects b (page w) = (None, p1) \<and> waitForFunction p1 = (r, p2)
         \<and> rejects b p2 = (None, p3) \<and> emailScript (document b p3) = None
         \<and> screenshot b (js ''debug-no-email.png'') p3 = (Inr (), p4)
         \<and> screenshot b (js ''debug-tempmail-error.png'') p4 = (Inr (), p5)"
    then show "fst (getEmailAddress b waitForFunction w) = Inl addressNotFound" by (rule m3)
  next
    fix e p1
    assume "rejects b (page w) = (Some e, p1)"
    then show "\<exists>e'. fst (getEmailAddress b waitForFunction w) = Inl e'" by (rule m4)
  next
    fix e p1 r p2 p3
    assume "rejects b (page w) = (None, p1) \<and> waitForFunction p1 = (r, p2)
         \<and> rejects b p2 = (Some e, p3)"
    then show "\<exists>e'. fst (getEmailAddress b waitForFunction w) = Inl e'" by (rule m5)
  next
    assume "\<forall>p. emailScript (document b p) = None"
    then show "\<exists>e. fst (getEmailAddress b waitForFunction w) = Inl e" by (rule m6)
  next
    fix address
    assume "fst (getEmailAddress b waitForFunction w) = Inr address"
    from m7 [OF this]
    show "address \<noteq> []" "\<exists>p. emailScript (document b p) = Some address" by auto
  qed
qed


theorem getEmailAddress_resolution_witness:
  "fst (getEmailAddress (staticBrowser None (bodyDocument (js ''test@example.com, q7@mail.tm'')) [])
          waitResolves world0) = Inr (js ''q7@mail.tm'')
   \<and> fst (getEmailAddress
            (staticBrowser None (inboxDocument [js ''search'', js '' q7@mail.tm ''] (js ''a@b.cd'')) [])
            waitResolves world0) = Inr (js ''q7@mail.tm'')
   \<and> fst (getEmailAddress (staticBrowser None emptyDocument []) waitResolves world0) = Inl addressNotFound"
proof -
  let ?text = "bodyDocument (js ''test@example.com, q7@mail.tm'')"
  let ?form = "inboxDocument [js ''search'', js '' q7@mail.tm ''] (js ''a@b.cd'')"
  have tokens: "(\<forall>x\<in>set (querySelectorAll ?text (js ''input'')). \<not> holdsEmail x)
         \<and> js_matchAll emailShape (bodyInnerText ?text) = [js ''test@example.com''] @ js ''q7@mail.tm'' # []
         \<and> (\<forall>x\<in>set [js ''test@example.com'']. placeholder x) \<and> \<not> placeholder (js ''q7@mail.tm'')"
    by (simp add: bodyDocument_def js_matchAll_def js_matchAll_from.simps emailShape_def
          regex_run.simps(3) js_def placeholder_def)
  have fromText: "emailScript ?text = Some (js ''q7@mail.tm'')"
    using getEmailAddress_resolution [where ?'p = unit, THEN conjunct2, THEN conjunct1, rule_format, OF tokens] .
  have inputs: "querySelectorAll ?form (js ''input'')
           = [\<lparr>textContent = [], inputValue = js ''search'', offsetParent = True\<rparr>]
             @ \<lparr>textContent = [], inputValue = js '' q7@mail.tm '', offsetParent = True\<rparr> # []
         \<and> (\<forall>x\<in>set [\<lparr>textContent = [], inputValue = js ''search'', offsetParent = True\<rparr>]. \<not> holdsEmail x)
         \<and> holdsEmail \<lparr>textContent = [], inputValue = js '' q7@mail.tm '', offsetParent = True\<rparr>"
    by (simp add: inboxDocument_def holdsEmail_def js_def js_trim_def isWhiteSpace_def whiteSpace_def
          js_match_def wholeEmail_def emailShape_def regex_run.simps(3))
  have trimmed: "js_trim (js '' q7@mail.tm '') = js ''q7@mail.tm''"
    by (simp add: js_def js_trim_def isWhiteSpace_def whiteSpace_def)
  have fromInput: "emailScript ?form = Some (js ''q7@mail.tm'')"
    using getEmailAddress_resolution [where ?'p = unit, THEN conjunct1, rule_format, OF inputs] trimmed
    by simp
  have blank: "(\<forall>x\<in>set (querySelectorAll emptyDocument (js ''input'')). \<not> holdsEmail x)
         \<and> js_matchAll emailShape (bodyInnerText emptyDocument) = []"
    by (simp add: emptyDocument_def js_matchAll_def js_matchAll_from.simps emailShape_def
          regex_run.simps(3))
  have none: "emailScript emptyDocument = None"
    using getEmailAddress_resolution [where ?'p = unit, THEN conjunct2, THEN conjunct2, THEN conjunct2,
            THEN conjunct1, rule_format, OF blank] .
  have calm: "rejects (staticBrowser None d []) (page world0) = (None, ())
         \<and> waitResolves () = (Inr (), ())
         \<and> rejects (staticBrowser None d []) () = (None, ())
         \<and> emailScript (document (staticBrowser None d []) ()) = emailScript d" for d
    by (simp add: staticBrowser_def world0_def waitResolves_def)
  have shots: "screenshot (staticBrowser None d []) path () = (Inr (), ())" for d path
    by (simp add: staticBrowser_def)
  show ?thesis
    using getEmailAddress_resolution [where b = "staticBrowser None ?text []" and w = world0
            and waitForFunction = waitResolves, THEN conjunct2, THEN conjunct2, THEN conjunct2,
            THEN conjunct2, THEN conjunct1, rule_format, of "()" "Inr ()" "()" "()" "js ''q7@mail.tm''"]
          getEmailAddress_resolution [where b = "staticBrowser None ?form []" and w = world0
            and waitForFunction = waitResolves, THEN conjunct2, THEN conjunct2, THEN conjunct2,
            THEN conjunct2, THEN conjunct1, rule_format, of "()" "Inr ()" "()" "()" "js ''q7@mail.tm''"]
          getEmailAddress_resolution [where b = "staticBrowser None emptyDocument []" and w = world0
            and waitForFunction = waitResolves, THEN conjunct2, THEN conjunct2, THEN conjunct2,
            THEN conjunct2, THEN conjunct2, THEN conjunct2, THEN conjunct1, rule_format,
            of "()" "Inr ()" "()" "()" "()" "()"]
          calm [of ?text] calm [of ?form] calm [of emptyDocument] shots fromText fromInput none
    by simp
qed

subsection \<open>Session-token exchange\<close>
























end
